theory Spec2Isabelle
  imports Main "HOL-Library.Word"
begin

unbundle bit_operations_syntax

chapter \<open>Tempesta TLS: server handshake parser and multi-precision integers\<close>

text \<open>
  A shallow embedding of parts of \<^verbatim>\<open>src/tls/tls_srv.c\<close> and \<^verbatim>\<open>src/tls/bignum.c\<close>.
  Bytes are \<open>8 word\<close>, C \<open>unsigned short\<close> is \<open>16 word\<close>, \<open>unsigned int\<close> is \<open>32 word\<close>
  and \<open>unsigned long\<close> (one limb) is \<open>64 word\<close>. A C function that mutates the TLS context
  through its pointer argument takes the context and returns the new one next to its
  return code.
\<close>

section \<open>TLS server side: data model\<close>

type_synonym byte = "8 word"

datatype alert_level = TTLS_ALERT_LEVEL_WARNING | TTLS_ALERT_LEVEL_FATAL

datatype alert_msg =
    TTLS_ALERT_MSG_DECODE_ERROR
  | TTLS_ALERT_MSG_ILLEGAL_PARAMETER
  | TTLS_ALERT_MSG_PROTOCOL_VERSION
  | TTLS_ALERT_MSG_INAPROPRIATE_FALLBACK
  | TTLS_ALERT_MSG_HANDSHAKE_FAILURE
  | TTLS_ALERT_MSG_UNRECOGNIZED_NAME
  | TTLS_ALERT_MSG_NO_APPLICATION_PROTOCOL

text \<open>Return codes of the handshake functions: \<open>0\<close> is \<open>RC_OK\<close>.\<close>

datatype rc =
    RC_OK
  | T_POSTPONE
  | TTLS_ERR_BAD_HS_CLIENT_HELLO
  | TTLS_ERR_BAD_HS_PROTOCOL_VERSION
  | TTLS_ERR_PRIVATE_KEY_REQUIRED
  | TTLS_ERR_BAD_HS_CLIENT_KEY_EXCHANGE
  | TTLS_ERR_INTERNAL_ERROR
  | EINVAL
  | ENOMEM
  | ENOSPC

text \<open>Sub-states of the ClientHello parser, in the order of the source.\<close>

datatype ch_state =
    TTLS_CH_HS_VER | TTLS_CH_HS_RND | TTLS_CH_HS_SLEN | TTLS_CH_HS_SESS
  | TTLS_CH_HS_CSLEN | TTLS_CH_HS_CS | TTLS_CH_HS_CS_SKIP | TTLS_CH_HS_COMPN
  | TTLS_CH_HS_COMP | TTLS_CH_HS_EXTLEN | TTLS_CH_HS_EXT | TTLS_CH_HS_EXS
  | TTLS_CH_HS_EX

text \<open>
  \<open>TlsSess\<close>: the session. Only \<open>id_len\<close> and \<open>id\<close> are named by the functions
  modelled here; the remaining fields are copied as a whole.
\<close>

record TlsSess =
  id_len :: nat
  id_arr :: "byte list"
  ciphersuite :: int
  master :: "byte list"

text \<open>
  \<open>TlsHs\<close>: the handshake context. \<open>randbytes\<close> are the 64 bytes of the client and the
  server random; \<open>css\<close> is the fixed array of stored peer cipher suites; \<open>cs_total_len\<close>
  and \<open>cs_cur_len\<close> count bytes.
\<close>

record TlsHs =
  randbytes :: "byte list"
  secure_renegotiation :: bool
  cli_exts :: bool
  point_format :: byte
  new_session_ticket :: bool
  resume :: bool
  cs_total_len :: nat
  cs_cur_len :: nat
  css :: "16 word list"
  pmslen :: nat
  premaster :: "byte list"

text \<open>
  \<open>TlsCfg\<close>: the configuration. A callback is \<open>None\<close> when the pointer is \<open>NULL\<close>.
  \<open>f_ticket_parse\<close> returns its return code and the session it filled in.
\<close>

record TlsCfg =
  max_minor_ver :: byte
  f_ticket_parse :: "(byte list \<Rightarrow> int \<times> TlsSess) option"
  f_ticket_write :: "unit option"

text \<open>
  \<open>TlsCtx\<close>: \<open>hstype\<close>, \<open>rlen\<close> and \<open>hslen\<close> are the fields of \<open>tls->io_in\<close>; \<open>alerts\<close>
  records the calls of \<open>ttls_send_alert\<close>, oldest first.
\<close>

record TlsCtx =
  major :: byte
  minor :: byte
  substate :: ch_state
  conf :: TlsCfg
  hs :: TlsHs
  sess :: TlsSess
  hstype :: byte
  rlen :: nat
  hslen :: "32 word"
  alerts :: "(alert_level \<times> alert_msg) list"

definition ttls_send_alert :: "TlsCtx \<Rightarrow> alert_level \<Rightarrow> alert_msg \<Rightarrow> TlsCtx" where
  "ttls_send_alert tls lvl msg = tls\<lparr>alerts := alerts tls @ [(lvl, msg)]\<rparr>"

text \<open>Constants of \<^verbatim>\<open>ecp.h\<close>.\<close>

definition TTLS_ECP_PF_UNCOMPRESSED :: byte where "TTLS_ECP_PF_UNCOMPRESSED = 0"
definition TTLS_ECP_PF_COMPRESSED :: byte where "TTLS_ECP_PF_COMPRESSED = 1"

text \<open>
  Modelled from the spec: the protocol constants of \<^verbatim>\<open>ttls.h\<close>, which is not among the
  sources. TLS 1.2 is version 3.3; the two signalling cipher suite values are those of
  RFC 7507 and RFC 5746; the handshake message type of a ClientHello is 1.
\<close>

definition TTLS_HS_CLIENT_HELLO :: byte where "TTLS_HS_CLIENT_HELLO = 1"

definition TTLS_MAJOR_VERSION_3 :: byte where "TTLS_MAJOR_VERSION_3 = 3"
definition TTLS_MINOR_VERSION_3 :: byte where "TTLS_MINOR_VERSION_3 = 3"
definition TTLS_MAX_MAJOR_VERSION :: byte where "TTLS_MAX_MAJOR_VERSION = 3"
definition TTLS_FALLBACK_SCSV_VALUE :: "16 word" where "TTLS_FALLBACK_SCSV_VALUE = 0x5600"
definition TTLS_EMPTY_RENEGOTIATION_INFO :: "16 word" where "TTLS_EMPTY_RENEGOTIATION_INFO = 0xFF"

section \<open>Extension handlers\<close>

subsection \<open>\<open>ttls_parse_supported_point_formats\<close>\<close>

text \<open>
  The loop over the list: the first entry that is the uncompressed or the compressed
  format is stored and the function returns.
\<close>

fun point_formats_loop :: "TlsCtx \<Rightarrow> byte list \<Rightarrow> TlsCtx" where
  "point_formats_loop tls [] = tls"
| "point_formats_loop tls (p0 # ps) =
     (if p0 = TTLS_ECP_PF_UNCOMPRESSED \<or> p0 = TTLS_ECP_PF_COMPRESSED
      then tls\<lparr>hs := (hs tls)\<lparr>point_format := p0\<rparr>\<rparr>
      else point_formats_loop tls ps)"

definition ttls_parse_supported_point_formats :: "TlsCtx \<Rightarrow> byte list \<Rightarrow> rc \<times> TlsCtx" where
  "ttls_parse_supported_point_formats tls buf =
     (if length buf = 0 \<or> unat (buf ! 0) + 1 \<noteq> length buf
      then (TTLS_ERR_BAD_HS_CLIENT_HELLO,
            ttls_send_alert tls TTLS_ALERT_LEVEL_FATAL TTLS_ALERT_MSG_DECODE_ERROR)
      else (RC_OK,
            point_formats_loop (tls\<lparr>hs := (hs tls)\<lparr>cli_exts := True\<rparr>\<rparr>)
              (take (unat (buf ! 0)) (drop 1 buf))))"

subsection \<open>\<open>ttls_parse_session_ticket_ext\<close>\<close>

text \<open>\<open>memcpy(dst, src, n)\<close> on byte arrays.\<close>

definition memcpy_bytes :: "byte list \<Rightarrow> byte list \<Rightarrow> nat \<Rightarrow> byte list" where
  "memcpy_bytes dst src n = take n src @ drop n dst"

definition ttls_parse_session_ticket_ext :: "TlsCtx \<Rightarrow> byte list \<Rightarrow> rc \<times> TlsCtx" where
  "ttls_parse_session_ticket_ext tls buf =
     (case (f_ticket_parse (conf tls), f_ticket_write (conf tls)) of
        (Some parse, Some _) \<Rightarrow>
          (let tls1 = tls\<lparr>hs := (hs tls)\<lparr>new_session_ticket := True\<rparr>\<rparr> in
           if length buf = 0 then (RC_OK, tls1)
           else
             (case parse buf of (r, session) \<Rightarrow>
                if r \<noteq> 0 then (RC_OK, tls1)
                else
                  (let session1 = session\<lparr>id_len := id_len (sess tls1)\<rparr>;
                       session2 = session1\<lparr>id_arr :=
                         memcpy_bytes (id_arr session1) (id_arr (sess tls1)) (id_len session1)\<rparr>;
                       tls2 = tls1\<lparr>sess := session2\<rparr>
                   in (RC_OK, tls2\<lparr>hs := (hs tls2)\<lparr>resume := True,
                                                    new_session_ticket := False\<rparr>\<rparr>))))
      | _ \<Rightarrow> (RC_OK, tls))"

section \<open>ClientKeyExchange: the RSA encrypted premaster secret\<close>

text \<open>
  What \<open>ttls_parse_encrypted_pms\<close> takes from outside: the length of the own key
  (\<open>ttls_pk_get_len\<close>), whether the key can do RSA (\<open>ttls_pk_can_do\<close>), the 48 bytes that
  \<open>ttls_rnd\<close> writes into \<open>fake_pms\<close>, and \<open>ttls_pk_decrypt\<close>, which gives its return
  code, the output length and the content of the 48 byte output buffer \<open>peer_pms\<close>
  (whatever it holds when the decryption fails).
\<close>

record pk_env =
  pk_len :: nat
  pk_can_do_rsa :: bool
  rnd_fake_pms :: "byte list"
  pk_decrypt :: "byte list \<Rightarrow> 32 word \<times> 64 word \<times> byte list"

definition pms_diff :: "32 word \<Rightarrow> 64 word \<Rightarrow> byte list \<Rightarrow> byte \<Rightarrow> 32 word" where
  "pms_diff r peer_pmslen peer_pms ver1 =
     r OR ucast (peer_pmslen XOR 48)
       OR ucast ((peer_pms ! 0) XOR TTLS_MAX_MAJOR_VERSION)
       OR ucast ((peer_pms ! 1) XOR ver1)"

definition pms_mask :: "32 word \<Rightarrow> byte" where
  "pms_mask diff = ucast (- (drop_bit 31 (diff OR (- diff))))"

text \<open>The loop that fills the first 48 bytes of \<open>premaster\<close>.\<close>

definition pms_select :: "byte \<Rightarrow> byte list \<Rightarrow> byte list \<Rightarrow> byte list" where
  "pms_select msk fake_pms peer_pms =
     map (\<lambda>i. (msk AND fake_pms ! i) OR ((NOT msk) AND peer_pms ! i)) [0..<48]"

text \<open>
  The message is the byte range from \<open>p\<close> to \<open>end\<close>. The function reads the two bytes
  of the length prefix without looking at \<open>end\<close>; a message shorter than that makes it
  read outside the message, which the model gives as \<open>None\<close>.
\<close>

definition ttls_parse_encrypted_pms ::
    "pk_env \<Rightarrow> TlsCtx \<Rightarrow> byte list \<Rightarrow> (rc \<times> TlsCtx) option" where
  "ttls_parse_encrypted_pms env tls msg =
     (let len = pk_len env in
      if \<not> pk_can_do_rsa env then Some (TTLS_ERR_PRIVATE_KEY_REQUIRED, tls)
      else if length msg < 1 then None
      else if unat (msg ! 0) \<noteq> (len div 256) mod 256
      then Some (TTLS_ERR_BAD_HS_CLIENT_KEY_EXCHANGE, tls)
      else if length msg < 2 then None
      else if unat (msg ! 1) \<noteq> len mod 256 \<or> length msg \<noteq> len + 2
      then Some (TTLS_ERR_BAD_HS_CLIENT_KEY_EXCHANGE, tls)
      else
        (let fake_pms = rnd_fake_pms env;
             (r, peer_pmslen, peer_pms) = pk_decrypt env (drop 2 msg);
             diff = pms_diff r peer_pmslen peer_pms (max_minor_ver (conf tls));
             msk = pms_mask diff;
             pms = pms_select msk fake_pms peer_pms
         in Some (RC_OK, tls\<lparr>hs := (hs tls)\<lparr>pmslen := 48,
                                        premaster := pms @ drop 48 (premaster (hs tls))\<rparr>\<rparr>)))"


text \<open>The decryption failed, or the decrypted length or version do not match.\<close>

definition pms_mismatch :: "32 word \<Rightarrow> 64 word \<Rightarrow> byte list \<Rightarrow> byte \<Rightarrow> bool" where
  "pms_mismatch r peer_pmslen peer_pms ver1 =
     (r \<noteq> 0 \<or> peer_pmslen \<noteq> 48 \<or> peer_pms ! 0 \<noteq> TTLS_MAX_MAJOR_VERSION \<or> peer_pms ! 1 \<noteq> ver1)"

section \<open>The ClientHello parser\<close>

subsection \<open>\<open>ttls_check_scsvs\<close>\<close>

definition ttls_check_scsvs :: "TlsCtx \<Rightarrow> 16 word \<Rightarrow> rc \<times> TlsCtx" where
  "ttls_check_scsvs tls cipher_suite =
     (if cipher_suite = TTLS_FALLBACK_SCSV_VALUE then
        (if minor tls < max_minor_ver (conf tls)
         then (TTLS_ERR_BAD_HS_CLIENT_HELLO,
               ttls_send_alert tls TTLS_ALERT_LEVEL_FATAL TTLS_ALERT_MSG_INAPROPRIATE_FALLBACK)
         else (RC_OK, tls))
      else if cipher_suite = TTLS_EMPTY_RENEGOTIATION_INFO
      then (RC_OK, tls\<lparr>hs := (hs tls)\<lparr>secure_renegotiation := True\<rparr>\<rparr>)
      else (RC_OK, tls))"

subsection \<open>The state machine\<close>

text \<open>
  Modelled from the spec: the macros \<open>T_FSM_STATE\<close>, \<open>T_FSM_EXIT\<close>, \<open>TTLS_HS_FSM_MOVE\<close>
  and \<open>TTLS_HS_FSM_FINISH\<close> of \<^verbatim>\<open>tls_internal.h\<close> and \<^verbatim>\<open>lib/fsm.h\<close>, which are not
  among the sources. A call of \<open>ttls_parse_client_hello\<close> gets one chunk of the message
  and may return need-more-bytes after any byte. The body of a state ends in one of
  four ways:
  \<^item> \<open>Return r tls\<close>: a \<open>return r\<close> of the function;
  \<^item> \<open>Exit tls rest\<close>: \<open>T_FSM_EXIT()\<close>, the call ends with \<open>T_POSTPONE\<close> and the next call
    re-enters the same state; \<open>io->rlen\<close> grows by the bytes this state consumed;
  \<^item> \<open>Move st tls rest\<close>: \<open>TTLS_HS_FSM_MOVE(st)\<close>, which sets the state and clears
    \<open>io->rlen\<close>, and then goes on in \<open>st\<close> when bytes of the chunk are left and ends the
    call with \<open>T_POSTPONE\<close> otherwise;
  \<^item> \<open>Fault\<close>: a \<open>BUG_ON\<close> fires, or the state reads behind the end of the chunk.
  \<open>rest\<close> is the part of the chunk from \<open>p\<close> on.
\<close>

datatype fsm_step =
    Return rc TlsCtx
  | Exit TlsCtx "byte list"
  | Move ch_state TlsCtx "byte list"
  | Fault

text \<open>State \<open>TTLS_CH_HS_VER\<close>.\<close>

definition ver_check :: "TlsCtx \<Rightarrow> byte list \<Rightarrow> fsm_step" where
  "ver_check tls rest =
     (let tls1 = tls\<lparr>hslen := hslen tls - 2\<rparr> in
      if major tls1 \<noteq> TTLS_MAJOR_VERSION_3 \<or> minor tls1 \<noteq> TTLS_MINOR_VERSION_3
      then Return TTLS_ERR_BAD_HS_PROTOCOL_VERSION
             (ttls_send_alert tls1 TTLS_ALERT_LEVEL_FATAL TTLS_ALERT_MSG_PROTOCOL_VERSION)
      else Move TTLS_CH_HS_RND tls1 rest)"

definition st_VER :: "TlsCtx \<Rightarrow> byte list \<Rightarrow> fsm_step" where
  "st_VER tls bs =
     (if rlen tls \<ge> 2 then Fault
      else if rlen tls \<noteq> 0 then
        (case bs of
           [] \<Rightarrow> Fault
         | b # rest \<Rightarrow> ver_check (tls\<lparr>minor := b\<rparr>) rest)
      else
        (case bs of
           [] \<Rightarrow> Fault
         | [b] \<Rightarrow> Exit (tls\<lparr>major := b\<rparr>) []
         | b0 # b1 # rest \<Rightarrow> ver_check (tls\<lparr>major := b0, minor := b1\<rparr>) rest))"

text \<open>
  State \<open>TTLS_CH_HS_RND\<close>: the bytes of the chunk, at most the \<open>32 - io->rlen\<close> that are
  missing, are copied into \<open>randbytes\<close>.
\<close>

definition st_RND :: "TlsCtx \<Rightarrow> byte list \<Rightarrow> fsm_step" where
  "st_RND tls bs =
     (if rlen tls \<ge> 32 then Fault
      else
        (let n = min (32 - rlen tls) (length bs);
             rb = randbytes (hs tls);
             tls1 = tls\<lparr>hs := (hs tls)\<lparr>randbytes :=
                          take (rlen tls) rb @ take n bs @ drop (rlen tls + n) rb\<rparr>,
                        hslen := hslen tls - of_nat n\<rparr>
         in if rlen tls + n < 32 then Exit tls1 (drop n bs)
            else Move TTLS_CH_HS_SLEN tls1 (drop n bs)))"

text \<open>
  State \<open>TTLS_CH_HS_SLEN\<close>. \<open>sizeof(tls->sess.id)\<close> is the length of the array; only the
  length of the session id is stored here.
\<close>

definition st_SLEN :: "TlsCtx \<Rightarrow> byte list \<Rightarrow> fsm_step" where
  "st_SLEN tls bs =
     (case bs of
        [] \<Rightarrow> Fault
      | b # rest \<Rightarrow>
          (let n = unat b in
           if n > length (id_arr (sess tls)) \<or> n + 9 > unat (hslen tls)
           then Return TTLS_ERR_BAD_HS_CLIENT_HELLO
                  (ttls_send_alert tls TTLS_ALERT_LEVEL_FATAL TTLS_ALERT_MSG_DECODE_ERROR)
           else
             (let tls1 = tls\<lparr>sess := (sess tls)\<lparr>id_len := n\<rparr>, hslen := hslen tls - 1\<rparr>
              in if n \<noteq> 0 then Move TTLS_CH_HS_SESS tls1 rest
                 else Move TTLS_CH_HS_CSLEN tls1 rest)))"

text \<open>
  Modelled from the spec: \<open>memcmp_fast\<close> of \<^verbatim>\<open>lib/str.h\<close>, which is not among the
  sources: the comparison of the first \<open>n\<close> bytes of two byte ranges, 0 when they are
  equal. It writes nothing.
\<close>

definition memcmp_fast :: "byte list \<Rightarrow> byte list \<Rightarrow> nat \<Rightarrow> int" where
  "memcmp_fast xs ys n = (if take n xs = take n ys then 0 else 1)"

text \<open>
  State \<open>TTLS_CH_HS_SESS\<close>. The bytes of the session id are compared with
  \<open>tls->sess.id\<close> by \<open>memcmp_fast\<close>, whose result is not used; the state writes \<open>p\<close> and
  \<open>io->hslen\<close> only.
\<close>

definition st_SESS :: "TlsCtx \<Rightarrow> byte list \<Rightarrow> fsm_step" where
  "st_SESS tls bs =
     (if rlen tls \<ge> id_len (sess tls) then Fault
      else
        (let n = min (id_len (sess tls) - rlen tls) (length bs);
             unused = memcmp_fast (drop (rlen tls) (id_arr (sess tls))) bs n;
             tls1 = tls\<lparr>hslen := hslen tls - of_nat n\<rparr>
         in if rlen tls + n < id_len (sess tls) then Exit tls1 (drop n bs)
            else Move TTLS_CH_HS_CSLEN tls1 (drop n bs)))"

text \<open>State \<open>TTLS_CH_HS_CSLEN\<close>.\<close>

definition cslen_check :: "TlsCtx \<Rightarrow> byte list \<Rightarrow> fsm_step" where
  "cslen_check tls rest =
     (let n = cs_total_len (hs tls);
          tls1 = tls\<lparr>hs := (hs tls)\<lparr>cs_cur_len := 0\<rparr>, hslen := hslen tls - 2\<rparr> in
      if n < 2 \<or> n + 1 > unat (hslen tls1) \<or> odd n
      then Return TTLS_ERR_BAD_HS_CLIENT_HELLO
             (ttls_send_alert tls1 TTLS_ALERT_LEVEL_FATAL TTLS_ALERT_MSG_DECODE_ERROR)
      else Move TTLS_CH_HS_CS tls1 rest)"

definition st_CSLEN :: "TlsCtx \<Rightarrow> byte list \<Rightarrow> fsm_step" where
  "st_CSLEN tls bs =
     (if rlen tls \<ge> 2 then Fault
      else if rlen tls \<noteq> 0 then
        (case bs of
           [] \<Rightarrow> Fault
         | b # rest \<Rightarrow>
             cslen_check (tls\<lparr>hs := (hs tls)\<lparr>cs_total_len := cs_total_len (hs tls) + unat b\<rparr>\<rparr>)
               rest)
      else
        (case bs of
           [] \<Rightarrow> Fault
         | [b] \<Rightarrow> Exit (tls\<lparr>hs := (hs tls)\<lparr>cs_total_len := unat b * 256\<rparr>\<rparr>) []
         | b0 # b1 # rest \<Rightarrow>
             cslen_check (tls\<lparr>hs := (hs tls)\<lparr>cs_total_len := unat b0 * 256 + unat b1\<rparr>\<rparr>)
               rest))"

text \<open>
  State \<open>TTLS_CH_HS_CS\<close>. \<open>sizeof(tls->hs->css)\<close> is twice the number of entries of the
  array. \<open>cs_store\<close> is the part after the two bytes of a suite are in \<open>css\<close>.
\<close>

definition sizeof_css :: "TlsCtx \<Rightarrow> nat" where
  "sizeof_css tls = 2 * length (css (hs tls))"

definition cs_store :: "TlsCtx \<Rightarrow> byte list \<Rightarrow> fsm_step" where
  "cs_store tls rest =
     (let n = cs_total_len (hs tls);
          cs = css (hs tls) ! (cs_cur_len (hs tls) div 2) in
      case ttls_check_scsvs tls cs of (r, tls1) \<Rightarrow>
        if r \<noteq> RC_OK then Return TTLS_ERR_BAD_HS_CLIENT_HELLO tls1
        else
          (let tls2 = tls1\<lparr>hs := (hs tls1)\<lparr>cs_cur_len := cs_cur_len (hs tls1) + 2\<rparr>,
                           hslen := hslen tls1 - 2\<rparr> in
           if cs_cur_len (hs tls2) = n then Move TTLS_CH_HS_COMPN tls2 rest
           else Move TTLS_CH_HS_CS tls2 rest))"

definition css_set :: "TlsCtx \<Rightarrow> 16 word \<Rightarrow> TlsCtx" where
  "css_set tls v = tls\<lparr>hs := (hs tls)\<lparr>css := (css (hs tls))[cs_cur_len (hs tls) div 2 := v]\<rparr>\<rparr>"

definition st_CS :: "TlsCtx \<Rightarrow> byte list \<Rightarrow> fsm_step" where
  "st_CS tls bs =
     (if rlen tls \<ge> 2 then Fault
      else if cs_cur_len (hs tls) \<ge> sizeof_css tls then Move TTLS_CH_HS_CS_SKIP tls bs
      else if rlen tls \<noteq> 0 then
        (case bs of
           [] \<Rightarrow> Fault
         | b # rest \<Rightarrow>
             cs_store (css_set tls (css (hs tls) ! (cs_cur_len (hs tls) div 2) + ucast b)) rest)
      else
        (case bs of
           [] \<Rightarrow> Fault
         | [b] \<Rightarrow> Exit (css_set tls (push_bit 8 (ucast b))) []
         | b0 # b1 # rest \<Rightarrow> cs_store (css_set tls (push_bit 8 (ucast b0) + ucast b1)) rest))"

text \<open>
  State \<open>TTLS_CH_HS_CS_SKIP\<close>. \<open>delta\<close> is an \<open>unsigned short\<close> that takes the \<open>int\<close>
  minimum of the bytes left in the chunk and of the bytes left in the list.
\<close>

definition st_CS_SKIP :: "TlsCtx \<Rightarrow> byte list \<Rightarrow> fsm_step" where
  "st_CS_SKIP tls bs =
     (let n = cs_total_len (hs tls);
          delta = nat (min (int (length bs)) (int n - int (cs_cur_len (hs tls))) mod 65536);
          tls1 = tls\<lparr>hs := (hs tls)\<lparr>cs_cur_len := cs_cur_len (hs tls) + delta\<rparr>,
                     hslen := hslen tls - of_nat delta\<rparr>;
          rest = drop delta bs in
      if cs_cur_len (hs tls1) = n
      then Move TTLS_CH_HS_COMPN (tls1\<lparr>hs := (hs tls1)\<lparr>cs_total_len := sizeof_css tls1\<rparr>\<rparr>) rest
      else Move TTLS_CH_HS_CS_SKIP tls1 rest)"

text \<open>
  The states modelled here; the parser leaves this fragment when it moves to any other
  state.
\<close>

fun ch_body :: "ch_state \<Rightarrow> (TlsCtx \<Rightarrow> byte list \<Rightarrow> fsm_step) option" where
  "ch_body TTLS_CH_HS_VER = Some st_VER"
| "ch_body TTLS_CH_HS_RND = Some st_RND"
| "ch_body TTLS_CH_HS_SLEN = Some st_SLEN"
| "ch_body TTLS_CH_HS_SESS = Some st_SESS"
| "ch_body TTLS_CH_HS_CSLEN = Some st_CSLEN"
| "ch_body TTLS_CH_HS_CS = Some st_CS"
| "ch_body TTLS_CH_HS_CS_SKIP = Some st_CS_SKIP"
| "ch_body _ = None"

text \<open>
  The state machine of \<open>ttls_parse_client_hello\<close>, from \<open>T_FSM_START\<close> on, for one chunk and
  entered in state \<open>st\<close>; the check of \<open>io->hstype\<close> that precedes it is in
  \<open>ttls_parse_client_hello\<close> below. The results of a call:
  \<^item> \<open>Returned r tls\<close>: the call returned \<open>r\<close> (\<open>T_POSTPONE\<close> when it needs more bytes);
  \<^item> \<open>Continues st tls rest\<close>: the parser reached the state \<open>st\<close> outside the fragment
    with \<open>rest\<close> of the chunk still unread;
  \<^item> \<open>Faulted\<close>: a state body faulted;
  \<^item> \<open>Spins\<close>: a move to a modelled state that neither consumes a byte nor leaves
    state \<open>TTLS_CH_HS_CS\<close>; the C code then repeats the same move forever. Lemma
    \<open>move_progress\<close> below shows that this is the state \<open>TTLS_CH_HS_CS_SKIP\<close> with
    \<open>delta = 0\<close> and nothing else.
\<close>

datatype ch_result =
    Returned rc TlsCtx
  | Continues ch_state TlsCtx "byte list"
  | Faulted
  | Spins

definition step_measure :: "ch_state \<Rightarrow> byte list \<Rightarrow> nat" where
  "step_measure st bs =
     (if ch_body st = None then 0
      else 2 * length bs + (if st = TTLS_CH_HS_CS then 2 else 1))"

function ch_fsm :: "ch_state \<Rightarrow> TlsCtx \<Rightarrow> byte list \<Rightarrow> ch_result" where
  "ch_fsm st tls bs =
     (case ch_body st of
        None \<Rightarrow> Continues st tls bs
      | Some body \<Rightarrow>
          (case body tls bs of
             Fault \<Rightarrow> Faulted
           | Return r tls1 \<Rightarrow> Returned r tls1
           | Exit tls1 rest \<Rightarrow>
               Returned T_POSTPONE
                 (tls1\<lparr>substate := st, rlen := rlen tls1 + (length bs - length rest)\<rparr>)
           | Move st1 tls1 rest \<Rightarrow>
               (let tls2 = tls1\<lparr>substate := st1, rlen := 0\<rparr> in
                if rest = [] then Returned T_POSTPONE tls2
                else if step_measure st1 rest < step_measure st bs then ch_fsm st1 tls2 rest
                else Spins)))"
  by pat_completeness auto
termination
  by (relation "measure (\<lambda>(st, tls, bs). step_measure st bs)") auto

declare ch_fsm.simps [simp del]


text \<open>
  \<open>ttls_parse_client_hello\<close> on one chunk: a message that is not a ClientHello is refused
  before a byte is read, without an alert; otherwise the state machine is entered at
  \<open>ttls_substate(tls)\<close>.
\<close>

definition ttls_parse_client_hello :: "TlsCtx \<Rightarrow> byte list \<Rightarrow> ch_result" where
  "ttls_parse_client_hello tls buf =
     (if hstype tls \<noteq> TTLS_HS_CLIENT_HELLO then Returned TTLS_ERR_BAD_HS_CLIENT_HELLO tls
      else ch_fsm (substate tls) tls buf)"

text \<open>
  The calls of \<open>ttls_parse_client_hello\<close> on the chunks of a message, one after the
  other: each call enters the state machine at the state the last one left.
\<close>

fun ch_feed :: "TlsCtx \<Rightarrow> byte list list \<Rightarrow> ch_result" where
  "ch_feed tls [] = Returned T_POSTPONE tls"
| "ch_feed tls (c # cs) =
     (case ttls_parse_client_hello tls c of
        Returned T_POSTPONE tls1 \<Rightarrow> ch_feed tls1 cs
      | r \<Rightarrow> r)"

text \<open>The context after a ClientHello with a refused version \<open>b0.b1\<close>.\<close>

definition bad_version :: "TlsCtx \<Rightarrow> byte \<Rightarrow> byte \<Rightarrow> TlsCtx" where
  "bad_version tls b0 b1 =
     tls\<lparr>major := b0, minor := b1, hslen := hslen tls - 2,
         alerts := alerts tls @ [(TTLS_ALERT_LEVEL_FATAL, TTLS_ALERT_MSG_PROTOCOL_VERSION)]\<rparr>"

subsection \<open>\<open>ttls_choose_ciphersuite\<close>\<close>

text \<open>
  \<open>ttls_ciphersuite_match\<close> rests on tables and helpers that are not among the sources;
  it is taken as a parameter that gives, for the context and a suite id, the return code
  and the suite information when \<open>ci\<close> is set. \<open>ciphersuites\<close> are the entries of
  \<open>tls->peer_conf->ciphersuite_list[tls->minor]\<close> before the terminating 0.

  The inner loop over the stored suites of the peer, for the own suite \<open>c\<close>; \<open>got\<close> is
  \<open>got_common_suite\<close>.
\<close>

datatype 'ci suite_scan = Have 'ci | Ret rc | Next_suite bool

fun scan_peer :: "(int \<Rightarrow> rc \<times> 'ci option) \<Rightarrow> int \<Rightarrow> 16 word list \<Rightarrow> bool \<Rightarrow> 'ci suite_scan" where
  "scan_peer m c [] got = Next_suite got"
| "scan_peer m c (cs # rest) got =
     (if uint cs \<noteq> c then scan_peer m c rest got
      else
        (case m c of (r, ci) \<Rightarrow>
           if r \<noteq> RC_OK then Ret r
           else (case ci of Some i \<Rightarrow> Have i | None \<Rightarrow> scan_peer m c rest True)))"

text \<open>The outer loop over the own suites, in the order of preference.\<close>

datatype 'ci suite_choice = Chosen int 'ci | Choice_ret rc | No_suite bool

fun scan_own ::
    "(int \<Rightarrow> rc \<times> 'ci option) \<Rightarrow> int list \<Rightarrow> 16 word list \<Rightarrow> bool \<Rightarrow> 'ci suite_choice" where
  "scan_own m [] peer got = No_suite got"
| "scan_own m (c # cs) peer got =
     (case scan_peer m c peer got of
        Have i \<Rightarrow> Chosen c i
      | Ret r \<Rightarrow> Choice_ret r
      | Next_suite got1 \<Rightarrow> scan_own m cs peer got1)"

text \<open>
  The function gives the return code, the context and \<open>ci\<close>. The inner loop runs over
  \<open>cs_total_len / 2\<close> entries of \<open>css\<close>; with more entries than the array has it reads
  outside the array, which the model gives as \<open>None\<close>.
\<close>

definition ttls_choose_ciphersuite ::
    "(TlsCtx \<Rightarrow> int \<Rightarrow> rc \<times> 'ci option) \<Rightarrow> int list \<Rightarrow> TlsCtx
      \<Rightarrow> (rc \<times> TlsCtx \<times> 'ci option) option" where
  "ttls_choose_ciphersuite ttls_ciphersuite_match ciphersuites tls =
     (let cs_cnt = cs_total_len (hs tls) div 2 in
      if cs_cnt > length (css (hs tls)) then None
      else
        (case scan_own (ttls_ciphersuite_match tls) ciphersuites (take cs_cnt (css (hs tls))) False of
           Chosen c i \<Rightarrow> Some (RC_OK, tls\<lparr>sess := (sess tls)\<lparr>ciphersuite := c\<rparr>\<rparr>, Some i)
         | Choice_ret r \<Rightarrow> Some (r, tls, None)
         | No_suite got \<Rightarrow>
             Some (EINVAL,
                   ttls_send_alert tls TTLS_ALERT_LEVEL_FATAL TTLS_ALERT_MSG_HANDSHAKE_FAILURE,
                   None)))"

section \<open>The cipher suite list of a ClientHello\<close>

text \<open>
  The list as the client sent it: \<open>bs\<close> are the bytes of the list, two for each suite, the
  high byte first.
\<close>

definition cs_suite :: "byte list \<Rightarrow> nat \<Rightarrow> 16 word" where
  "cs_suite bs i = push_bit 8 (ucast (bs ! (2 * i))) + ucast (bs ! (2 * i + 1))"

definition cs_suites :: "byte list \<Rightarrow> 16 word list" where
  "cs_suites bs = map (cs_suite bs) [0..<length bs div 2]"

text \<open>
  The parser is at the start of the list: it entered state \<open>TTLS_CH_HS_CS\<close> from
  \<open>TTLS_CH_HS_CSLEN\<close>, which accepted the even length \<open>n\<close> of two bytes.
\<close>

definition cs_start :: "TlsCtx \<Rightarrow> nat \<Rightarrow> bool" where
  "cs_start tls n =
     (hstype tls = TTLS_HS_CLIENT_HELLO \<and> substate tls = TTLS_CH_HS_CS \<and> rlen tls = 0 \<and>
      cs_cur_len (hs tls) = 0 \<and> cs_total_len (hs tls) = n \<and> even n \<and> 2 \<le> n \<and> n < 65536)"

text \<open>
  The array \<open>css\<close> after \<open>k\<close> bytes of the list went into it: the suites read so far, the
  high byte of the next one when \<open>k\<close> is odd, and the old entries behind them.
\<close>

definition cs_css :: "16 word list \<Rightarrow> byte list \<Rightarrow> nat \<Rightarrow> 16 word list" where
  "cs_css css0 bs k =
     take (k div 2) (cs_suites bs)
     @ (if odd k then [push_bit 8 (ucast (bs ! (k - 1)))] else [])
     @ drop ((k + 1) div 2) css0"

text \<open>
  The context after \<open>k\<close> bytes of the list \<open>bs\<close> are consumed, when no suite was refused:
  the first \<open>sizeof(css)\<close> bytes go into \<open>css\<close>, the others are skipped.
\<close>

definition cs_at :: "TlsCtx \<Rightarrow> byte list \<Rightarrow> nat \<Rightarrow> TlsCtx" where
  "cs_at tls bs k =
     tls\<lparr>hs := (hs tls)
            \<lparr>css := cs_css (css (hs tls)) bs (min k (sizeof_css tls)),
             cs_cur_len := (if k \<le> sizeof_css tls then 2 * (k div 2) else k),
             cs_total_len := (if k = length bs \<and> sizeof_css tls < length bs then sizeof_css tls
                              else length bs),
             secure_renegotiation :=
               (secure_renegotiation (hs tls) \<or>
                TTLS_EMPTY_RENEGOTIATION_INFO
                  \<in> set (take (min k (sizeof_css tls) div 2) (cs_suites bs)))\<rparr>,
         hslen := hslen tls - of_nat (if k \<le> sizeof_css tls then 2 * (k div 2) else k),
         rlen := (if k < sizeof_css tls then k mod 2 else 0),
         substate := (if k = length bs then TTLS_CH_HS_COMPN
                      else if k \<le> sizeof_css tls then TTLS_CH_HS_CS else TTLS_CH_HS_CS_SKIP)\<rparr>"

text \<open>
  Suite \<open>q\<close> of the list is the fallback signalling value and the version of the
  connection is below the highest one of the configuration.
\<close>

definition cs_refused :: "TlsCtx \<Rightarrow> byte list \<Rightarrow> nat \<Rightarrow> bool" where
  "cs_refused tls bs q =
     (cs_suite bs q = TTLS_FALLBACK_SCSV_VALUE \<and> minor tls < max_minor_ver (conf tls))"

text \<open>The same for one of the suites that go into the array.\<close>

definition cs_fallback_refused :: "TlsCtx \<Rightarrow> byte list \<Rightarrow> bool" where
  "cs_fallback_refused tls bs =
     (minor tls < max_minor_ver (conf tls) \<and>
      TTLS_FALLBACK_SCSV_VALUE \<in> set (take (length (css (hs tls))) (cs_suites bs)))"

section \<open>Example contexts\<close>

text \<open>Concrete contexts on which the theorems below are instantiated.\<close>

definition tls0 :: TlsCtx where
  "tls0 = \<lparr>major = 0, minor = 0, substate = TTLS_CH_HS_VER,
     conf = \<lparr>max_minor_ver = 3, f_ticket_parse = None, f_ticket_write = None\<rparr>,
     hs = \<lparr>randbytes = replicate 64 0, secure_renegotiation = False, cli_exts = False, point_format = 0,
           new_session_ticket = False, resume = False, cs_total_len = 0, cs_cur_len = 0,
           css = replicate 4 0, pmslen = 0, premaster = replicate 48 0\<rparr>,
     sess = \<lparr>id_len = 0, id_arr = replicate 32 0, ciphersuite = 0, master = replicate 48 0\<rparr>,
     hstype = 1, rlen = 0, hslen = 100, alerts = []\<rparr>"

definition sess1 :: TlsSess where
  "sess1 = \<lparr>id_len = 0, id_arr = replicate 32 7, ciphersuite = 47, master = replicate 48 9\<rparr>"

text \<open>
  A context before the ClientHello, with ticket callbacks: \<open>f_ticket_parse\<close> returns \<open>r\<close>
  and the session \<open>sess1\<close>.
\<close>

definition tls_ticket :: "int \<Rightarrow> TlsCtx" where
  "tls_ticket r = tls0\<lparr>conf := (conf tls0)\<lparr>f_ticket_parse := Some (\<lambda>buf. (r, sess1)),
                                           f_ticket_write := Some ()\<rparr>\<rparr>"

text \<open>
  The context \<open>tls_ticket 0\<close> after the version 3.3, 32 random bytes \<open>55\<close> and a session id
  of two bytes.
\<close>

definition tls_sid :: TlsCtx where
  "tls_sid = (tls_ticket 0)\<lparr>major := 3, minor := 3, substate := TTLS_CH_HS_CSLEN,
     hs := (hs (tls_ticket 0))\<lparr>randbytes := replicate 32 0x55 @ replicate 32 0\<rparr>,
     sess := (sess (tls_ticket 0))\<lparr>id_len := 2\<rparr>,
     rlen := 0, hslen := 63\<rparr>"

text \<open>
  A context at the start of a cipher suite list of \<open>n\<close> bytes, with room for four suites,
  on a connection of version 3.3 under a configuration that goes up to 3.4.
\<close>

definition tls_list :: "nat \<Rightarrow> TlsCtx" where
  "tls_list n = tls0\<lparr>major := 3, minor := 3, substate := TTLS_CH_HS_CS,
     conf := (conf tls0)\<lparr>max_minor_ver := 4\<rparr>,
     hs := (hs tls0)\<lparr>cs_total_len := n\<rparr>, hslen := 50\<rparr>"

text \<open>
  Three lists. In the first the fifth suite is the fallback signalling value, in the
  second it is the renegotiation signalling value, in the third the fallback signalling
  value comes second.
\<close>

definition list_fallback_last :: "byte list" where
  "list_fallback_last = [0x00, 0x2F, 0x00, 0x35, 0xC0, 0x2B, 0x00, 0xFF, 0x56, 0x00]"

definition list_reneg_last :: "byte list" where
  "list_reneg_last = [0x00, 0x2F, 0x00, 0x35, 0xC0, 0x2B, 0xC0, 0x2F, 0x00, 0xFF]"

definition list_fallback_second :: "byte list" where
  "list_fallback_second = [0x00, 0x2F, 0x56, 0x00, 0xC0, 0x2B]"

definition env0 :: "32 word \<Rightarrow> pk_env" where
  "env0 r = \<lparr>pk_len = 2, pk_can_do_rsa = True, rnd_fake_pms = replicate 48 0xAA,
     pk_decrypt = (\<lambda>c. (r, 48, [3, 3] @ replicate 46 0x11))\<rparr>"

chapter \<open>The multi-precision integers of \<^verbatim>\<open>bignum.c\<close>\<close>

section \<open>Data model\<close>

text \<open>
  Modelled from the spec: the type \<open>TlsMpi\<close> and the macros of \<^verbatim>\<open>bignum.h\<close>, which is
  not among the sources. An MPI is a sign \<open>s\<close> (1 or -1), the number \<open>used\<close> of limbs that
  hold the magnitude, least significant limb first, and the allocated array \<open>p\<close> of
  \<open>limbs\<close> limbs. A limb is a 64 bit \<open>unsigned long\<close> (\<open>bignum.c\<close> tests bit 63 of a limb
  and reads limbs with \<open>cpu_to_be64\<close>), so \<open>BIL = 64\<close>, \<open>CIL = 8\<close>, \<open>BIH = 32\<close>,
  \<open>BSHIFT = 6\<close>, \<open>LSHIFT = 3\<close> and \<open>BMASK = 63\<close>.

  The model keeps the array as a list, so \<open>limbs\<close> is its length and a \<open>NULL\<close> pointer is
  the empty list. The limbs from \<open>used\<close> on are part of the value of the model, as they
  are part of the memory of the program: several functions read them.
\<close>

type_synonym limb = "64 word"

record TlsMpi =
  mpi_s :: int
  used :: nat
  mpi_p :: "limb list"

definition limbs :: "TlsMpi \<Rightarrow> nat" where
  "limbs X = length (mpi_p X)"

definition BIL :: nat where "BIL = 64"
definition CIL :: nat where "CIL = 8"
definition BIH :: nat where "BIH = 32"

definition BITS_TO_LIMBS :: "nat \<Rightarrow> nat" where
  "BITS_TO_LIMBS n = (n + BIL - 1) div 64"

definition CHARS_TO_LIMBS :: "nat \<Rightarrow> nat" where
  "CHARS_TO_LIMBS n = (n + CIL - 1) div 8"

text \<open>
  What the functions take from their environment: the bound \<open>TTLS_MPI_MAX_LIMBS\<close> on
  the size of an MPI and the bound \<open>TTLS_MPI_MAX_SIZE\<close> in bytes (constants of
  \<^verbatim>\<open>bignum.h\<close>), and the content of freshly allocated memory: \<open>kmalloc\<close> does not clear
  what it returns, and the model fills it with the limb \<open>junk\<close>. An allocation itself is
  taken to succeed.
\<close>

record mpi_env =
  TTLS_MPI_MAX_LIMBS :: nat
  TTLS_MPI_MAX_SIZE :: nat
  junk :: limb

definition kmalloc :: "mpi_env \<Rightarrow> nat \<Rightarrow> limb list" where
  "kmalloc e n = replicate n (junk e)"

text \<open>
  The result of a function that returns an error code: \<open>Ok\<close> with the MPIs it wrote,
  \<open>Err\<close> with the code, or \<open>Fault\<close> when the C code reads or writes outside an array or
  hits a \<open>BUG_ON\<close>.
\<close>

datatype 'a res = Ok 'a | Err rc | Fault

definition rbind :: "'a res \<Rightarrow> ('a \<Rightarrow> 'b res) \<Rightarrow> 'b res" where
  "rbind r f = (case r of Ok x \<Rightarrow> f x | Err c \<Rightarrow> Err c | Fault \<Rightarrow> Fault)"

text \<open>
  \<open>if (f(...)) return -ENOMEM\<close> and \<open>if (f(...)) goto cleanup\<close> with \<open>r = -ENOMEM\<close>: every
  error code of \<open>f\<close> becomes \<open>-ENOMEM\<close>.
\<close>

definition or_enomem :: "'a res \<Rightarrow> 'a res" where
  "or_enomem r = (case r of Err c \<Rightarrow> Err ENOMEM | _ \<Rightarrow> r)"

text \<open>
  A function with a loop that need not end returns \<open>None\<close> when it does not return.
\<close>

definition obind :: "'a res option \<Rightarrow> ('a \<Rightarrow> 'b res option) \<Rightarrow> 'b res option" where
  "obind r f =
     (case r of
        None \<Rightarrow> None
      | Some (Ok x) \<Rightarrow> f x
      | Some (Err c) \<Rightarrow> Some (Err c)
      | Some Fault \<Rightarrow> Some Fault)"

text \<open>The value of a limb array and of an MPI.\<close>

fun limbs_val :: "limb list \<Rightarrow> nat" where
  "limbs_val [] = 0"
| "limbs_val (x # xs) = unat x + 2 ^ 64 * limbs_val xs"

definition mpi_abs :: "TlsMpi \<Rightarrow> nat" where
  "mpi_abs X = limbs_val (take (used X) (mpi_p X))"

definition mpi_val :: "TlsMpi \<Rightarrow> int" where
  "mpi_val X = mpi_s X * int (mpi_abs X)"

section \<open>Storage\<close>

text \<open>\<open>ttls_mpi_init\<close> and \<open>ttls_mpi_free\<close> leave this MPI.\<close>

definition ttls_mpi_init :: TlsMpi where
  "ttls_mpi_init = \<lparr>mpi_s = 1, used = 0, mpi_p = []\<rparr>"

text \<open>\<open>__mpi_realloc\<close>; the two flags are \<open>MPI_GROW_COPY\<close> and \<open>MPI_GROW_ZERO\<close>.\<close>

definition mpi_realloc :: "mpi_env \<Rightarrow> TlsMpi \<Rightarrow> nat \<Rightarrow> bool \<Rightarrow> bool \<Rightarrow> TlsMpi res" where
  "mpi_realloc e X nblimbs grow_copy grow_zero =
     (if nblimbs > TTLS_MPI_MAX_LIMBS e then Err ENOMEM
      else if limbs X \<ge> nblimbs then Ok X
      else
        (let p0 = kmalloc e nblimbs;
             p1 = (if mpi_p X \<noteq> [] \<and> grow_copy
                   then take (used X) (mpi_p X) @ drop (used X) p0 else p0);
             p2 = (if grow_zero then take (used X) p1 @ replicate (nblimbs - used X) 0 else p1)
         in Ok (X\<lparr>mpi_p := p2\<rparr>)))"

text \<open>
  Modelled from the spec: \<open>ttls_mpi_grow\<close> of \<^verbatim>\<open>bignum.h\<close>, which is not among the
  sources: a grow bounded by \<open>TTLS_MPI_MAX_LIMBS\<close> that keeps the old content.
\<close>

definition ttls_mpi_grow :: "mpi_env \<Rightarrow> TlsMpi \<Rightarrow> nat \<Rightarrow> TlsMpi res" where
  "ttls_mpi_grow e X nblimbs = mpi_realloc e X nblimbs True True"

text \<open>\<open>mpi_fixup_used\<close>.\<close>

fun fixup_loop :: "limb list \<Rightarrow> nat \<Rightarrow> nat" where
  "fixup_loop xs u = (if u > 1 \<and> xs ! (u - 1) = 0 then fixup_loop xs (u - 1) else u)"

declare fixup_loop.simps [simp del]

definition mpi_fixup_used :: "TlsMpi \<Rightarrow> nat \<Rightarrow> TlsMpi" where
  "mpi_fixup_used X n = X\<lparr>used := fixup_loop (mpi_p X) (if n > limbs X then limbs X else n)\<rparr>"

text \<open>\<open>ttls_mpi_copy\<close>, for \<open>X\<close> and \<open>Y\<close> that are not the same object.\<close>

definition ttls_mpi_copy :: "mpi_env \<Rightarrow> TlsMpi \<Rightarrow> TlsMpi \<Rightarrow> TlsMpi res" where
  "ttls_mpi_copy e X Y =
     (if mpi_p Y = [] then Ok ttls_mpi_init
      else
        rbind (if limbs X < used Y then or_enomem (mpi_realloc e X (used Y) False False)
               else Ok X)
          (\<lambda>X1. Ok (X1\<lparr>mpi_p := take (used Y) (mpi_p Y) @ drop (used Y) (mpi_p X1),
                        mpi_s := mpi_s Y, used := used Y\<rparr>)))"

text \<open>\<open>ttls_mpi_lset\<close>; \<open>z\<close> is a \<open>long\<close>.\<close>

definition ttls_mpi_lset :: "mpi_env \<Rightarrow> TlsMpi \<Rightarrow> int \<Rightarrow> TlsMpi res" where
  "ttls_mpi_lset e X z =
     rbind (or_enomem (mpi_realloc e X 1 False False))
       (\<lambda>X1. if z < 0
              then Ok (X1\<lparr>used := 1, mpi_p := (mpi_p X1)[0 := word_of_int (- z)], mpi_s := - 1\<rparr>)
              else Ok (X1\<lparr>used := 1, mpi_p := (mpi_p X1)[0 := word_of_int z], mpi_s := 1\<rparr>))"

section \<open>Bit length and size\<close>

text \<open>\<open>fls64\<close>: the position of the most significant set bit, counted from 1; 0 for 0.\<close>

fun nat_bitlen :: "nat \<Rightarrow> nat" where
  "nat_bitlen n = (if n = 0 then 0 else Suc (nat_bitlen (n div 2)))"

declare nat_bitlen.simps [simp del]

definition fls64 :: "limb \<Rightarrow> nat" where
  "fls64 x = nat_bitlen (unat x)"

definition ttls_mpi_bitlen :: "TlsMpi \<Rightarrow> nat" where
  "ttls_mpi_bitlen X =
     (if used X = 0 \<or> mpi_p X ! (used X - 1) = 0 then 0
      else (used X - 1) * BIL + fls64 (mpi_p X ! (used X - 1)))"

definition ttls_mpi_size :: "TlsMpi \<Rightarrow> nat" where
  "ttls_mpi_size X = (ttls_mpi_bitlen X + 7) div 8"

section \<open>Binary import and export\<close>

text \<open>
  \<open>ttls_mpi_read_binary\<close>. The first loop reads eight bytes at a time from the end of
  the buffer, most significant byte first (\<open>cpu_to_be64\<close> of the word in memory on a
  little endian machine); the second loop reads the bytes that are left, if any.
\<close>

definition be_limb :: "byte list \<Rightarrow> limb" where
  "be_limb bs = foldl (\<lambda>acc b. push_bit 8 acc OR ucast b) 0 bs"

function read_full_limbs :: "byte list \<Rightarrow> nat \<Rightarrow> limb list" where
  "read_full_limbs buf i =
     (if i \<ge> CIL then be_limb (take CIL (drop (i - CIL) buf)) # read_full_limbs buf (i - CIL)
      else [])"
  by pat_completeness auto
termination
  by (relation "measure (\<lambda>(buf, i). i)") (auto simp: CIL_def)

declare read_full_limbs.simps [simp del]

fun read_last_limb :: "byte list \<Rightarrow> nat \<Rightarrow> nat \<Rightarrow> limb \<Rightarrow> limb" where
  "read_last_limb buf i j acc =
     (if i > 0 then read_last_limb buf (i - 1) (j + 8) (acc OR push_bit j (ucast (buf ! (i - 1))))
      else acc)"

declare read_last_limb.simps [simp del]

definition ttls_mpi_read_binary :: "mpi_env \<Rightarrow> TlsMpi \<Rightarrow> byte list \<Rightarrow> TlsMpi res" where
  "ttls_mpi_read_binary e X buf =
     (let buflen = length buf;
          nlimbs = CHARS_TO_LIMBS buflen;
          p0 = (if limbs X < nlimbs then kmalloc e nlimbs else mpi_p X);
          full = read_full_limbs buf buflen;
          i = buflen mod CIL;
          new = (if i \<noteq> 0 then full @ [read_last_limb buf i 0 0] else full);
          X1 = X\<lparr>mpi_p := new @ drop (length new) p0, mpi_s := 1\<rparr>
      in Ok (mpi_fixup_used X1 nlimbs))"

text \<open>
  \<open>ttls_mpi_write_binary\<close> into a buffer of \<open>buflen\<close> bytes: the loop writes the \<open>n\<close>
  bytes of \<open>X\<close> from the end of the buffer, \<open>memset\<close> clears the bytes before them.
\<close>

definition limb_byte :: "TlsMpi \<Rightarrow> nat \<Rightarrow> byte" where
  "limb_byte X j = ucast (drop_bit ((j mod CIL) * 8) (mpi_p X ! (j div CIL)))"

definition ttls_mpi_write_binary :: "TlsMpi \<Rightarrow> nat \<Rightarrow> byte list res" where
  "ttls_mpi_write_binary X buflen =
     (let n = ttls_mpi_size X in
      if buflen < n then Err ENOSPC
      else Ok (replicate (buflen - n) 0 @ rev (map (limb_byte X) [0..<n])))"

text \<open>
  \<open>ttls_mpi_fill_random\<close>; \<open>rnd\<close> are the \<open>size\<close> bytes that \<open>ttls_rnd\<close> writes. The bytes
  are stored in memory order, which on a little endian machine is the least significant
  byte of a limb first.
\<close>

definition le_limb :: "byte list \<Rightarrow> limb" where
  "le_limb bs = be_limb (rev bs)"

fun le_limbs :: "nat \<Rightarrow> byte list \<Rightarrow> limb list" where
  "le_limbs n bs = (if n = 0 then [] else le_limb (take CIL bs) # le_limbs (n - 1) (drop CIL bs))"

declare le_limbs.simps [simp del]

text \<open>The bytes of a limb in memory order.\<close>

definition limb_bytes :: "limb \<Rightarrow> byte list" where
  "limb_bytes x = map (\<lambda>k. ucast (drop_bit (8 * k) x)) [0..<CIL]"

definition ttls_mpi_fill_random :: "mpi_env \<Rightarrow> TlsMpi \<Rightarrow> nat \<Rightarrow> byte list \<Rightarrow> TlsMpi res" where
  "ttls_mpi_fill_random e X sz rnd =
     (let nlimbs = CHARS_TO_LIMBS sz;
          rem = nlimbs * CIL - sz in
      if sz > TTLS_MPI_MAX_SIZE e then Err EINVAL
      else
        rbind (or_enomem (mpi_realloc e X nlimbs False False))
          (\<lambda>X1.
             (let mem = concat (map limb_bytes (mpi_p X1));
                  mem1 = take sz rnd @ drop sz mem;
                  mem2 = (if rem > 0 then take sz mem1 @ replicate rem 0 @ drop (sz + rem) mem1
                          else mem1)
              in Ok (X1\<lparr>mpi_p := le_limbs (limbs X1) mem2, used := nlimbs, mpi_s := 1\<rparr>))))"

section \<open>Comparison\<close>

text \<open>
  The loop of \<open>ttls_mpi_cmp_abs\<close> and \<open>ttls_mpi_cmp_mpi\<close> from limb \<open>i - 1\<close> down: \<open>gt\<close> is
  returned when the limb of \<open>X\<close> is the greater one, \<open>lt\<close> when it is the smaller one.
\<close>

fun cmp_limbs :: "limb list \<Rightarrow> limb list \<Rightarrow> nat \<Rightarrow> int \<Rightarrow> int \<Rightarrow> int" where
  "cmp_limbs xs ys i gt lt =
     (if i = 0 then 0
      else if xs ! (i - 1) = ys ! (i - 1) then cmp_limbs xs ys (i - 1) gt lt
      else if xs ! (i - 1) > ys ! (i - 1) then gt else lt)"

declare cmp_limbs.simps [simp del]

definition ttls_mpi_cmp_abs :: "TlsMpi \<Rightarrow> TlsMpi \<Rightarrow> int" where
  "ttls_mpi_cmp_abs X Y =
     (if used X = 0 \<and> used Y = 0 then 0
      else if used X > used Y then 1
      else if used Y > used X then - 1
      else cmp_limbs (mpi_p X) (mpi_p Y) (used X) 1 (- 1))"

definition ttls_mpi_cmp_mpi :: "TlsMpi \<Rightarrow> TlsMpi \<Rightarrow> int" where
  "ttls_mpi_cmp_mpi X Y =
     (if used X = 0 \<and> used Y = 0 then 0
      else if used X > used Y then mpi_s X
      else if used Y > used X then - mpi_s Y
      else if mpi_s X > 0 \<and> mpi_s Y < 0 then 1
      else if mpi_s Y > 0 \<and> mpi_s X < 0 then - 1
      else cmp_limbs (mpi_p X) (mpi_p Y) (used X) (mpi_s X) (- mpi_s X))"

text \<open>\<open>ttls_mpi_cmp_int\<close>; \<open>z\<close> is a \<open>long\<close>, compared with the limb as an \<open>unsigned long\<close>.\<close>

definition cmp_int_limb :: "TlsMpi \<Rightarrow> int \<Rightarrow> int" where
  "cmp_int_limb X z =
     (let z' = (word_of_int z :: limb) in
      if z' = mpi_p X ! 0 then 0 else if mpi_p X ! 0 > z' then mpi_s X else - mpi_s X)"

definition ttls_mpi_cmp_int :: "TlsMpi \<Rightarrow> int \<Rightarrow> int" where
  "ttls_mpi_cmp_int X z =
     (if used X > 1 then mpi_s X
      else if used X = 0 then (if z = 0 then 0 else if z < 0 then 1 else - 1)
      else if z < 0 then (if mpi_s X > 0 then 1 else cmp_int_limb X (- z))
      else (if mpi_s X < 0 then - 1 else cmp_int_limb X z))"

section \<open>Shifts\<close>

text \<open>
  The second loop of \<open>ttls_mpi_shift_l\<close>, over the limbs from \<open>v0\<close> up: each limb is
  shifted left by \<open>t1\<close> bits and takes the bits \<open>r0\<close> shifted out of the limb below.
\<close>

fun shl_bits :: "nat \<Rightarrow> limb \<Rightarrow> limb list \<Rightarrow> limb list" where
  "shl_bits t1 r0 [] = []"
| "shl_bits t1 r0 (x # xs) = (push_bit t1 x OR r0) # shl_bits t1 (drop_bit (BIL - t1) x) xs"

text \<open>
  \<open>ttls_mpi_shift_l\<close>. With \<open>v0 > 0\<close> the first loop reads the limbs \<open>0\<close> to
  \<open>X->used - v0 - 1\<close> of the old array for the new value of \<open>X->used\<close>, whether or not
  the old array has that many limbs.
\<close>

definition ttls_mpi_shift_l :: "mpi_env \<Rightarrow> TlsMpi \<Rightarrow> nat \<Rightarrow> TlsMpi res" where
  "ttls_mpi_shift_l e X count =
     (let old_used = used X;
          i0 = ttls_mpi_bitlen X in
      if i0 = 0 then Ok X
      else
        (let v0 = count div 64;
             t1 = count mod 64;
             i = i0 + count;
             fresh = (limbs X * 64 < i);
             new_used = BITS_TO_LIMBS i;
             buf = (if fresh then kmalloc e new_used else mpi_p X)
         in
         if v0 > 0 \<and> new_used - v0 > limbs X then Fault
         else
           (let moved =
                  (if v0 > 0 then replicate v0 0 @ take (new_used - v0) (mpi_p X)
                   else if fresh then take old_used (mpi_p X) @ [0]
                   else take new_used buf);
                shifted =
                  (if t1 > 0 then take v0 moved @ shl_bits t1 0 (drop v0 moved) else moved)
            in Ok (X\<lparr>used := new_used, mpi_p := shifted @ drop (length shifted) buf\<rparr>))))"

text \<open>
  The second loop of \<open>ttls_mpi_shift_r\<close>, from the most significant limb down; the list
  holds the limbs most significant first.
\<close>

fun shr_bits :: "nat \<Rightarrow> limb \<Rightarrow> limb list \<Rightarrow> limb list" where
  "shr_bits v1 r0 [] = []"
| "shr_bits v1 r0 (x # xs) = (drop_bit v1 x OR r0) # shr_bits v1 (push_bit (BIL - v1) x) xs"

definition ttls_mpi_shift_r :: "mpi_env \<Rightarrow> TlsMpi \<Rightarrow> nat \<Rightarrow> TlsMpi res" where
  "ttls_mpi_shift_r e X count =
     (if used X = 0 \<or> mpi_p X ! (used X - 1) = 0 then Ok X
      else
        (let v0 = count div 64;
             v1 = count mod 64 in
         if v0 > used X \<or> (v0 = used X \<and> v1 > 0) then ttls_mpi_lset e X 0
         else
           (let used1 = (if v0 > 0 then used X - v0 else used X);
                p1 = (if v0 > 0 then take used1 (drop v0 (mpi_p X)) @ drop used1 (mpi_p X)
                      else mpi_p X)
            in
            if v1 > 0 then
              (let lo = rev (shr_bits v1 0 (rev (take used1 p1)));
                   p2 = lo @ drop used1 p1;
                   used2 = (if p2 ! (used1 - 1) = 0 then used1 - 1 else used1)
               in Ok (X\<lparr>used := used2, mpi_p := p2\<rparr>))
            else Ok (X\<lparr>used := used1, mpi_p := p1\<rparr>))))"

section \<open>Addition and subtraction\<close>

text \<open>
  \<open>ttls_mpi_add_abs\<close>. \<open>X\<close> may be the same object as \<open>A\<close> or as \<open>B\<close>: a limb of \<open>X\<close> is
  written after the limbs of \<open>A\<close> and \<open>B\<close> at the same index are read, so the model
  takes \<open>A\<close> and \<open>B\<close> by value, and the flag \<open>x_is_b\<close> says that \<open>X\<close> and \<open>B\<close> are the same
  object, for which the C code swaps \<open>A\<close> and \<open>B\<close>. The first loop runs over the limbs of
  \<open>B\<close>; where \<open>A\<close> has no limb the carry alone is stored. The second loop goes on while
  there is a carry. \<open>memcpy\<close> (or the array of \<open>X\<close> itself, when \<open>X\<close> is \<open>A\<close>) supplies the
  limbs of \<open>A\<close> above the limbs the loops wrote.
\<close>

definition carry_of :: "bool \<Rightarrow> limb" where
  "carry_of b = (if b then 1 else 0)"

fun add_loop1 :: "limb list \<Rightarrow> limb list \<Rightarrow> limb \<Rightarrow> limb list \<times> limb" where
  "add_loop1 a [] c = ([], c)"
| "add_loop1 a (bi # b) c =
     (let x0 = (case a of [] \<Rightarrow> c | ai # _ \<Rightarrow> ai + c);
          c1 = carry_of (x0 < c);
          x1 = x0 + bi;
          c2 = c1 + carry_of (x1 < bi);
          (xs, c') = add_loop1 (tl a) b c2
      in (x1 # xs, c'))"

fun add_loop2 :: "limb list \<Rightarrow> limb \<Rightarrow> limb list" where
  "add_loop2 a c =
     (if c = 0 then []
      else (case a of
              [] \<Rightarrow> [c]
            | ai # a' \<Rightarrow> (ai + c) # add_loop2 a' (carry_of (ai + c < c))))"

declare add_loop2.simps [simp del]

definition msb_set :: "limb \<Rightarrow> bool" where
  "msb_set x = (x AND push_bit 63 1 \<noteq> 0)"

definition add_abs_core :: "mpi_env \<Rightarrow> TlsMpi \<Rightarrow> TlsMpi \<Rightarrow> TlsMpi \<Rightarrow> TlsMpi res" where
  "add_abs_core e X A B =
     (let n0 = max (used A) (used B) in
      if n0 = 0 then Fault
      else
        (let n = (if (used A > used B \<and> msb_set (mpi_p A ! (n0 - 1)))
                     \<or> (used B > used A \<and> msb_set (mpi_p B ! (n0 - 1)))
                     \<or> (used A = used B \<and> msb_set (mpi_p A ! (n0 - 1) OR mpi_p B ! (n0 - 1)))
                  then n0 + 1 else n0)
         in
         rbind (or_enomem (mpi_realloc e X n False False))
           (\<lambda>X1.
              (let a = take (used A) (mpi_p A);
                   b = take (used B) (mpi_p B);
                   (xs1, c) = add_loop1 a b 0;
                   xs2 = add_loop2 (drop (used B) a) c;
                   written = xs1 @ xs2;
                   sum = written @ drop (length written) a
               in if length sum > limbs X1 then Fault
                  else Ok (X1\<lparr>mpi_s := 1, used := length sum,
                              mpi_p := sum @ drop (length sum) (mpi_p X1)\<rparr>)))))"

definition ttls_mpi_add_abs ::
    "mpi_env \<Rightarrow> bool \<Rightarrow> TlsMpi \<Rightarrow> TlsMpi \<Rightarrow> TlsMpi \<Rightarrow> TlsMpi res" where
  "ttls_mpi_add_abs e x_is_b X A B =
     (if x_is_b then add_abs_core e X B A else add_abs_core e X A B)"

text \<open>
  \<open>__mpi_sub\<close>: \<open>a - b\<close> on arrays with \<open>a_len \<ge> b_len\<close>, into \<open>a_len\<close> limbs. The second loop
  goes on while there is a borrow, also behind the end of \<open>a\<close>.
\<close>

fun sub_loop1 :: "limb list \<Rightarrow> limb list \<Rightarrow> limb \<Rightarrow> (limb list \<times> limb) res" where
  "sub_loop1 a [] c = Ok ([], c)"
| "sub_loop1 [] (bi # b) c = Fault"
| "sub_loop1 (ai # a) (bi # b) c =
     (let z = carry_of (ai < c);
          r0 = ai - c;
          c1 = carry_of (r0 < bi) + z
      in rbind (sub_loop1 a b c1) (\<lambda>(rs, c'). Ok ((r0 - bi) # rs, c')))"

fun sub_loop2 :: "limb list \<Rightarrow> limb \<Rightarrow> limb list res" where
  "sub_loop2 a c =
     (if c = 0 then Ok a
      else (case a of
              [] \<Rightarrow> Fault
            | ai # a' \<Rightarrow> rbind (sub_loop2 a' (carry_of (ai < c))) (\<lambda>rs. Ok ((ai - c) # rs))))"

declare sub_loop2.simps [simp del]

definition mpi_sub :: "limb list \<Rightarrow> limb list \<Rightarrow> limb list res" where
  "mpi_sub a b =
     (if length a < length b then Fault
      else rbind (sub_loop1 a b 0)
             (\<lambda>(rs, c). rbind (sub_loop2 (drop (length b) a) c) (\<lambda>rs2. Ok (rs @ rs2))))"

definition ttls_mpi_sub_abs :: "mpi_env \<Rightarrow> TlsMpi \<Rightarrow> TlsMpi \<Rightarrow> TlsMpi \<Rightarrow> TlsMpi res" where
  "ttls_mpi_sub_abs e X A B =
     (if ttls_mpi_cmp_abs A B < 0 then Err EINVAL
      else
        (let buf = (if limbs X < used A then kmalloc e (used A) else mpi_p X) in
         rbind (mpi_sub (take (used A) (mpi_p A)) (take (used B) (mpi_p B)))
           (\<lambda>rs. Ok (mpi_fixup_used
                        (X\<lparr>mpi_s := 1, mpi_p := rs @ drop (length rs) buf\<rparr>) (used A)))))"

text \<open>
  \<open>ttls_mpi_add_mpi\<close> and \<open>ttls_mpi_sub_mpi\<close>, with the same flag. \<open>s\<close> is read before \<open>X\<close>
  is written.
\<close>

definition ttls_mpi_add_mpi ::
    "mpi_env \<Rightarrow> bool \<Rightarrow> TlsMpi \<Rightarrow> TlsMpi \<Rightarrow> TlsMpi \<Rightarrow> TlsMpi res" where
  "ttls_mpi_add_mpi e x_is_b X A B =
     (let s = mpi_s A in
      if mpi_s A * mpi_s B < 0 then
        (if ttls_mpi_cmp_abs A B \<ge> 0
         then rbind (ttls_mpi_sub_abs e X A B) (\<lambda>X1. Ok (X1\<lparr>mpi_s := s\<rparr>))
         else rbind (ttls_mpi_sub_abs e X B A) (\<lambda>X1. Ok (X1\<lparr>mpi_s := - s\<rparr>)))
      else rbind (ttls_mpi_add_abs e x_is_b X A B) (\<lambda>X1. Ok (X1\<lparr>mpi_s := s\<rparr>)))"

definition ttls_mpi_sub_mpi ::
    "mpi_env \<Rightarrow> bool \<Rightarrow> TlsMpi \<Rightarrow> TlsMpi \<Rightarrow> TlsMpi \<Rightarrow> TlsMpi res" where
  "ttls_mpi_sub_mpi e x_is_b X A B =
     (let s = mpi_s A in
      if mpi_s A * mpi_s B > 0 then
        (if ttls_mpi_cmp_abs A B \<ge> 0
         then rbind (ttls_mpi_sub_abs e X A B) (\<lambda>X1. Ok (X1\<lparr>mpi_s := s\<rparr>))
         else rbind (ttls_mpi_sub_abs e X B A) (\<lambda>X1. Ok (X1\<lparr>mpi_s := - s\<rparr>)))
      else rbind (ttls_mpi_add_abs e x_is_b X A B) (\<lambda>X1. Ok (X1\<lparr>mpi_s := s\<rparr>)))"

section \<open>Multiplication\<close>

text \<open>
  \<open>__mpi_mul(n, s, d, b)\<close>: the multiply-add-accumulate kernel adds \<open>s * b\<close> to \<open>d\<close>, one
  limb \<open>s[k] * b + c + d[k]\<close> at a time, the low 64 bits of it into \<open>d[k]\<close> and the high 64
  bits into the carry \<open>c\<close>. The \<open>do ... while\<close> after it adds the last carry to the limbs
  above, and stores into at least one of them.
\<close>

fun carry_prop :: "limb list \<Rightarrow> limb \<Rightarrow> limb list res" where
  "carry_prop [] c = Fault"
| "carry_prop (di # d) c =
     (let x = di + c;
          c' = carry_of (x < c)
      in if c' \<noteq> 0 then rbind (carry_prop d c') (\<lambda>ds. Ok (x # ds)) else Ok (x # d))"

fun mpi_mul :: "limb list \<Rightarrow> limb list \<Rightarrow> limb \<Rightarrow> limb \<Rightarrow> limb list res" where
  "mpi_mul [] d b c = carry_prop d c"
| "mpi_mul (si # s) [] b c = Fault"
| "mpi_mul (si # s) (di # d) b c =
     (let t = unat si * unat b + unat c + unat di
      in rbind (mpi_mul s d b (of_nat (t div 2 ^ 64))) (\<lambda>ds. Ok (of_nat t # ds)))"

text \<open>
  The loop of \<open>ttls_mpi_mul_mpi\<close>, for \<open>j\<close> from the number of limbs of \<open>B\<close> down to 1:
  \<open>A * B[j - 1]\<close> is added to \<open>X\<close> from limb \<open>j - 1\<close> on.
\<close>

fun mul_loop :: "limb list \<Rightarrow> limb list \<Rightarrow> nat \<Rightarrow> limb list \<Rightarrow> limb list res" where
  "mul_loop a b j x =
     (if j > 0
      then rbind (mpi_mul a (drop (j - 1) x) (b ! (j - 1)) 0)
             (\<lambda>ds. mul_loop a b (j - 1) (take (j - 1) x @ ds))
      else Ok x)"

declare mul_loop.simps [simp del]

text \<open>
  \<open>ttls_mpi_mul_mpi\<close>. When \<open>X\<close> is the same object as \<open>A\<close> or \<open>B\<close> the C code multiplies a
  copy of it, so the model takes \<open>A\<close> and \<open>B\<close> by value.
\<close>

definition ttls_mpi_mul_mpi :: "mpi_env \<Rightarrow> TlsMpi \<Rightarrow> TlsMpi \<Rightarrow> TlsMpi \<Rightarrow> TlsMpi res" where
  "ttls_mpi_mul_mpi e X A B =
     (let i = used A; j = used B in
      rbind (mpi_realloc e X (i + j) False False)
        (\<lambda>X1.
           rbind (mul_loop (take i (mpi_p A)) (mpi_p B) j
                    (replicate (i + j) 0 @ drop (i + j) (mpi_p X1)))
             (\<lambda>x. Ok ((mpi_fixup_used (X1\<lparr>mpi_p := x, used := i + j\<rparr>) (i + j))
                        \<lparr>mpi_s := mpi_s A * mpi_s B\<rparr>))))"

definition ttls_mpi_mul_uint :: "mpi_env \<Rightarrow> TlsMpi \<Rightarrow> TlsMpi \<Rightarrow> limb \<Rightarrow> TlsMpi res" where
  "ttls_mpi_mul_uint e X A b = ttls_mpi_mul_mpi e X A \<lparr>mpi_s = 1, used = 1, mpi_p = [b]\<rparr>"

section \<open>Division\<close>

text \<open>
  The two correction loops of \<open>ttls_int_div_int\<close>:
  \<open>while (q >= radix || q * d0 > radix * r0 + u) { --q; r0 += d1; if (r0 >= radix) break; }\<close>
  in the arithmetic of \<open>unsigned long\<close>. The loop gives the last \<open>q\<close>.
\<close>

definition radix :: limb where "radix = push_bit BIH 1"

definition div_loop_cond :: "limb \<Rightarrow> limb \<Rightarrow> limb \<Rightarrow> limb \<Rightarrow> bool" where
  "div_loop_cond q r0 d0 u = (q \<ge> radix \<or> q * d0 > radix * r0 + u)"

function div_loop :: "limb \<Rightarrow> limb \<Rightarrow> limb \<Rightarrow> limb \<Rightarrow> limb \<Rightarrow> limb" where
  "div_loop q r0 d1 d0 u =
     (if div_loop_cond q r0 d0 u
      then (if r0 + d1 \<ge> radix then q - 1 else div_loop (q - 1) (r0 + d1) d1 d0 u)
      else q)"
  by pat_completeness auto
termination
proof (relation "measure (\<lambda>(q, r0, d1, d0, u). unat q)")
  show "wf (measure (\<lambda>(q, r0, d1, d0, u). unat q))" by simp
next
  fix q r0 d1 d0 u :: limb
  assume c: "div_loop_cond q r0 d0 u"
  have "q \<noteq> 0"
  proof
    assume "q = 0"
    with c show False by (simp add: div_loop_cond_def radix_def BIH_def)
  qed
  then have "unat (q - 1) < unat q"
    by (metis diff_less unat_gt_0 unat_minus_one zero_less_one)
  then show "((q - 1, r0 + d1, d1, d0, u), (q, r0, d1, d0, u))
               \<in> measure (\<lambda>(q, r0, d1, d0, u). unat q)"
    by simp
qed

declare div_loop.simps [simp del]

text \<open>
  \<open>ttls_int_div_int(u1, u0, d, NULL)\<close>, the quotient of the two limbs \<open>u1\<close>, \<open>u0\<close> by \<open>d\<close>.
  In \<open>(u0 >> (BIL - s)) & (-(long)s >> (BIL - 1))\<close> the mask is 0 for \<open>s = 0\<close> and all ones
  otherwise.
\<close>

definition ttls_int_div_int :: "limb \<Rightarrow> limb \<Rightarrow> limb \<Rightarrow> limb" where
  "ttls_int_div_int u1 u0 d =
     (if d = 0 \<or> u1 \<ge> d then - 1
      else
        (let s = BIL - fls64 d;
             dn = push_bit s d;
             u1n = push_bit s u1 OR (if s = 0 then 0 else drop_bit (BIL - s) u0);
             u0n = push_bit s u0;
             d1 = drop_bit BIH dn;
             d0 = dn AND (radix - 1);
             u0_msw = drop_bit BIH u0n;
             u0_lsw = u0n AND (radix - 1);
             q1a = u1n div d1;
             r0a = u1n - d1 * q1a;
             q1 = div_loop q1a r0a d1 d0 u0_msw;
             rAX = u1n * radix + (u0_msw - q1 * dn);
             q0a = rAX div d1;
             r0b = rAX - q0a * d1;
             q0 = div_loop q0a r0b d1 d0 u0_lsw
         in q1 * radix + q0))"

text \<open>
  \<open>ttls_mpi_div_mpi\<close>. \<open>Q\<close> and \<open>R\<close> are \<open>None\<close> for a \<open>NULL\<close> pointer; the flag \<open>r_is_a\<close> says
  that \<open>R\<close> and \<open>A\<close> are the same object, for which \<open>ttls_mpi_copy(R, A)\<close> does nothing.
  After the first checks every failure of a callee leaves through \<open>cleanup\<close> with
  \<open>-ENOMEM\<close>.

  The loop \<open>while (ttls_mpi_cmp_mpi(&X, &Y) >= 0)\<close>, on \<open>X\<close> and the array of \<open>Q\<close>:
\<close>

partial_function (option) div_while ::
    "mpi_env \<Rightarrow> TlsMpi \<Rightarrow> nat \<Rightarrow> TlsMpi \<Rightarrow> limb list \<Rightarrow> (TlsMpi \<times> limb list) res option" where
  "div_while e Y idx X q =
     (if ttls_mpi_cmp_mpi X Y \<ge> 0 then
        (if idx \<ge> length q then Some Fault
         else
           (case or_enomem (ttls_mpi_sub_mpi e False X X Y) of
              Ok X1 \<Rightarrow> div_while e Y idx X1 (q[idx := q ! idx + 1])
            | Err c \<Rightarrow> Some (Err c)
            | Fault \<Rightarrow> Some Fault))
      else Some (Ok (X, q)))"

declare div_while.simps [code]

text \<open>
  The inner \<open>do ... while (ttls_mpi_cmp_mpi(&T1, &T2) > 0)\<close>, on \<open>T1\<close> and the limb
  \<open>Q->p[i - t - 1]\<close>.
\<close>

definition div_t1 :: "TlsMpi \<Rightarrow> nat \<Rightarrow> TlsMpi \<Rightarrow> TlsMpi" where
  "div_t1 Y t T1 =
     mpi_fixup_used
       (T1\<lparr>mpi_s := 1, used := 2,
           mpi_p := (mpi_p T1)[0 := (if t < 1 then 0 else mpi_p Y ! (t - 1)), 1 := mpi_p Y ! t]\<rparr>)
       2"

partial_function (option) div_qloop ::
    "mpi_env \<Rightarrow> TlsMpi \<Rightarrow> nat \<Rightarrow> TlsMpi \<Rightarrow> TlsMpi \<Rightarrow> limb \<Rightarrow> (TlsMpi \<times> limb) res option" where
  "div_qloop e Y t T2 T1 q =
     (case or_enomem (ttls_mpi_mul_uint e (div_t1 Y t T1) (div_t1 Y t T1) (q - 1)) of
        Ok T1a \<Rightarrow>
          (if ttls_mpi_cmp_mpi T1a T2 > 0 then div_qloop e Y t T2 T1a (q - 1)
           else Some (Ok (T1a, q - 1)))
      | Err c \<Rightarrow> Some (Err c)
      | Fault \<Rightarrow> Some Fault)"

declare div_qloop.simps [code]

text \<open>The body of the loop \<open>for (i = n; i > t; i--)\<close>, on \<open>X\<close>, \<open>T1\<close> and the array of \<open>Q\<close>.\<close>

definition div_t2 :: "TlsMpi \<Rightarrow> nat \<Rightarrow> TlsMpi" where
  "div_t2 X i =
     mpi_fixup_used
       \<lparr>mpi_s = 1, used = 0,
        mpi_p = [if i < 2 then 0 else mpi_p X ! (i - 2),
                 if i < 1 then 0 else mpi_p X ! (i - 1),
                 mpi_p X ! i]\<rparr>
       3"

definition div_body ::
    "mpi_env \<Rightarrow> TlsMpi \<Rightarrow> nat \<Rightarrow> nat \<Rightarrow> TlsMpi \<times> TlsMpi \<times> limb list
      \<Rightarrow> (TlsMpi \<times> TlsMpi \<times> limb list) res option" where
  "div_body e Y t i st =
     (case st of (X, T1, q) \<Rightarrow>
        if i \<ge> limbs X \<or> i - t - 1 \<ge> length q then Some Fault
        else
          (let q0 = (if mpi_p X ! i \<ge> mpi_p Y ! t then 0
                     else ttls_int_div_int (mpi_p X ! i) (mpi_p X ! (i - 1)) (mpi_p Y ! t) + 1)
           in
           obind (div_qloop e Y t (div_t2 X i) T1 q0)
             (\<lambda>(T1a, q1).
                Some
                  (rbind (or_enomem (ttls_mpi_mul_uint e T1a Y q1))
                     (\<lambda>T1b. rbind (or_enomem (ttls_mpi_shift_l e T1b (BIL * (i - t - 1))))
                     (\<lambda>T1c. rbind (or_enomem (ttls_mpi_sub_mpi e False X X T1c))
                     (\<lambda>X1.
                        if ttls_mpi_cmp_int X1 0 < 0 then
                          rbind (or_enomem (ttls_mpi_copy e T1c Y))
                            (\<lambda>T1d. rbind (or_enomem (ttls_mpi_shift_l e T1d (BIL * (i - t - 1))))
                            (\<lambda>T1e. rbind (or_enomem (ttls_mpi_add_mpi e False X1 X1 T1e))
                            (\<lambda>X2. Ok (X2, T1e, q[i - t - 1 := q1 - 1]))))
                        else Ok (X1, T1c, q[i - t - 1 := q1]))))))))"

function div_for ::
    "mpi_env \<Rightarrow> TlsMpi \<Rightarrow> nat \<Rightarrow> nat \<Rightarrow> TlsMpi \<times> TlsMpi \<times> limb list
      \<Rightarrow> (TlsMpi \<times> TlsMpi \<times> limb list) res option" where
  "div_for e Y t i st =
     (if i > t then obind (div_body e Y t i st) (div_for e Y t (i - 1)) else Some (Ok st))"
  by pat_completeness auto
termination
  by (relation "measure (\<lambda>(e, Y, t, i, st). i)") auto

declare div_for.simps [simp del]

definition div_early :: "'a option \<Rightarrow> ('a \<Rightarrow> 'a res) \<Rightarrow> 'a option res" where
  "div_early V f =
     (case V of None \<Rightarrow> Ok None | Some v \<Rightarrow> rbind (or_enomem (f v)) (\<lambda>v1. Ok (Some v1)))"

text \<open>
  The start of the long division: the copies \<open>X\<close> of \<open>A\<close> and \<open>Y\<close> of \<open>B\<close>, the temporary
  \<open>T1\<close>, the cleared array of \<open>Q\<close>, the normalisation shift \<open>k\<close>, and \<open>Y\<close> shifted left by
  \<open>n - t\<close> limbs.
\<close>

definition div_setup ::
    "mpi_env \<Rightarrow> TlsMpi \<Rightarrow> TlsMpi \<Rightarrow> TlsMpi
      \<Rightarrow> (TlsMpi \<times> TlsMpi \<times> TlsMpi \<times> TlsMpi \<times> limb list \<times> nat \<times> nat \<times> nat) res" where
  "div_setup e Z A B =
     rbind (or_enomem (ttls_mpi_copy e ttls_mpi_init A)) (\<lambda>X0.
     rbind (or_enomem (ttls_mpi_copy e ttls_mpi_init B)) (\<lambda>Y0.
     rbind (or_enomem (mpi_realloc e ttls_mpi_init 2 False False)) (\<lambda>T1.
     rbind (or_enomem (mpi_realloc e Z (used A) False False)) (\<lambda>Z1.
       (let X1 = X0\<lparr>mpi_s := 1\<rparr>;
            Y1 = Y0\<lparr>mpi_s := 1\<rparr>;
            q = replicate (used A) 0 @ drop (used A) (mpi_p Z1);
            kb = ttls_mpi_bitlen Y1 mod 64;
            k = (if kb < BIL - 1 then BIL - 1 - kb else 0)
        in
        rbind (if kb < BIL - 1 then or_enomem (ttls_mpi_shift_l e X1 k) else Ok X1) (\<lambda>X2.
        rbind (if kb < BIL - 1 then or_enomem (ttls_mpi_shift_l e Y1 k) else Ok Y1) (\<lambda>Y2.
          (let n = used X2 - 1;
               t = used Y2 - 1
           in rbind (or_enomem (ttls_mpi_shift_l e Y2 (BIL * (n - t)))) (\<lambda>Y3.
                Ok (X2, Y3, T1, Z1, q, k, n, t))))))))))"

text \<open>The end of the long division: \<open>Q\<close> and \<open>R\<close> are written when they are asked for.\<close>

definition div_finish ::
    "mpi_env \<Rightarrow> TlsMpi option \<Rightarrow> TlsMpi option \<Rightarrow> TlsMpi \<Rightarrow> TlsMpi \<Rightarrow> TlsMpi \<Rightarrow> limb list
      \<Rightarrow> nat \<Rightarrow> TlsMpi \<Rightarrow> (TlsMpi option \<times> TlsMpi option) res" where
  "div_finish e Q R A B Z1 q k X =
     (let Q2 = (case Q of
                  None \<Rightarrow> None
                | Some Q0 \<Rightarrow>
                    Some (mpi_fixup_used
                            (Z1\<lparr>mpi_p := q, used := used A, mpi_s := mpi_s A * mpi_s B\<rparr>)
                            (used A)))
      in
      case R of
        None \<Rightarrow> Ok (Q2, None)
      | Some R0 \<Rightarrow>
          rbind (or_enomem (ttls_mpi_shift_r e X k)) (\<lambda>X5.
            (let X6 = (mpi_fixup_used X5 (used X5))\<lparr>mpi_s := mpi_s A\<rparr> in
             rbind (or_enomem (ttls_mpi_copy e R0 X6)) (\<lambda>R1.
               Ok (Q2, Some (if ttls_mpi_cmp_int R1 0 = 0 then R1\<lparr>mpi_s := 1\<rparr> else R1))))))"

definition ttls_mpi_div_mpi ::
    "mpi_env \<Rightarrow> bool \<Rightarrow> TlsMpi option \<Rightarrow> TlsMpi option \<Rightarrow> TlsMpi \<Rightarrow> TlsMpi
      \<Rightarrow> (TlsMpi option \<times> TlsMpi option) res option" where
  "ttls_mpi_div_mpi e r_is_a Q R A B =
     (if ttls_mpi_cmp_int B 0 = 0 then Some (Err EINVAL)
      else if ttls_mpi_cmp_int B 1 = 0 then
        Some (rbind (div_early Q (\<lambda>Q0. ttls_mpi_copy e Q0 A)) (\<lambda>Q1.
              rbind (div_early R (\<lambda>R0. ttls_mpi_lset e R0 0)) (\<lambda>R1. Ok (Q1, R1))))
      else if ttls_mpi_cmp_abs A B < 0 then
        Some (rbind (div_early Q (\<lambda>Q0. ttls_mpi_lset e Q0 0)) (\<lambda>Q1.
              rbind (div_early R (\<lambda>R0. if r_is_a then Ok R0 else ttls_mpi_copy e R0 A)) (\<lambda>R1.
                Ok (Q1, R1))))
      else
        obind (Some (div_setup e (case Q of None \<Rightarrow> ttls_mpi_init | Some Q0 \<Rightarrow> Q0) A B))
          (\<lambda>(X2, Y3, T1, Z1, q, k, n, t).
             obind (div_while e Y3 (n - t) X2 q) (\<lambda>(X3, q1).
             obind (Some (or_enomem (ttls_mpi_shift_r e Y3 (BIL * (n - t))))) (\<lambda>Y4.
             obind (div_for e Y4 t n (X3, T1, q1)) (\<lambda>(X4, T1a, q2).
               Some (div_finish e Q R A B Z1 q2 k X4))))))"

text \<open>\<open>ttls_mpi_mod_mpi\<close> and its two correction loops.\<close>

partial_function (option) mod_add_loop ::
    "mpi_env \<Rightarrow> TlsMpi \<Rightarrow> TlsMpi \<Rightarrow> TlsMpi res option" where
  "mod_add_loop e B R =
     (if ttls_mpi_cmp_int R 0 < 0 then
        (case ttls_mpi_add_mpi e False R R B of
           Ok R1 \<Rightarrow> mod_add_loop e B R1
         | Err c \<Rightarrow> Some (Err c)
         | Fault \<Rightarrow> Some Fault)
      else Some (Ok R))"

declare mod_add_loop.simps [code]

partial_function (option) mod_sub_loop ::
    "mpi_env \<Rightarrow> TlsMpi \<Rightarrow> TlsMpi \<Rightarrow> TlsMpi res option" where
  "mod_sub_loop e B R =
     (if ttls_mpi_cmp_mpi R B \<ge> 0 then
        (case ttls_mpi_sub_mpi e False R R B of
           Ok R1 \<Rightarrow> mod_sub_loop e B R1
         | Err c \<Rightarrow> Some (Err c)
         | Fault \<Rightarrow> Some Fault)
      else Some (Ok R))"

declare mod_sub_loop.simps [code]

definition ttls_mpi_mod_mpi ::
    "mpi_env \<Rightarrow> bool \<Rightarrow> TlsMpi \<Rightarrow> TlsMpi \<Rightarrow> TlsMpi \<Rightarrow> TlsMpi res option" where
  "ttls_mpi_mod_mpi e r_is_a R A B =
     (if ttls_mpi_cmp_int B 0 < 0 then Some (Err EINVAL)
      else
        obind (ttls_mpi_div_mpi e r_is_a None (Some R) A B)
          (\<lambda>(Q1, R1).
             (case R1 of
                None \<Rightarrow> Some Fault
              | Some R2 \<Rightarrow> obind (mod_add_loop e B R2) (mod_sub_loop e B))))"

section \<open>Montgomery multiplication and modular exponentiation\<close>

text \<open>\<open>__mpi_montg_init\<close>: the loop runs for \<open>i = 64, 32, 16, 8\<close>.\<close>

definition mpi_montg_init :: "TlsMpi \<Rightarrow> limb" where
  "mpi_montg_init N =
     (let m0 = mpi_p N ! 0;
          x0 = m0 + push_bit 1 ((m0 + 2) AND 4);
          step = (\<lambda>x. x * (2 - m0 * x));
          x4 = step (step (step (step x0)))
      in NOT x4 + 1)"

text \<open>
  The loop of \<open>__mpi_montmul\<close> over \<open>i < n\<close>, on the array of \<open>T\<close>; \<open>d\<close> points to limb \<open>i\<close> of
  it. The limb \<open>A->p[i]\<close> is read whether or not \<open>A\<close> uses it.
\<close>

function montmul_loop ::
    "limb list \<Rightarrow> limb list \<Rightarrow> limb list \<Rightarrow> limb \<Rightarrow> nat \<Rightarrow> nat \<Rightarrow> nat \<Rightarrow> limb list
      \<Rightarrow> limb list res" where
  "montmul_loop a b nn mm n m i t =
     (if i < n then
        (if i \<ge> length a \<or> b = [] \<or> i \<ge> length t \<or> i + n + 2 \<ge> length t then Fault
         else
           (let u0 = a ! i;
                u1 = (t ! i + u0 * b ! 0) * mm
            in rbind (mpi_mul (take m b) (drop i t) u0 0) (\<lambda>d1.
               rbind (mpi_mul (take n nn) d1 u1 0) (\<lambda>d2.
                 montmul_loop a b nn mm n m (i + 1)
                   ((take i t @ u0 # drop 1 d2)[i + n + 2 := 0])))))
      else Ok t)"
  by pat_completeness auto
termination
  by (relation "measure (\<lambda>(a, b, nn, mm, n, m, i, t). n - i)") auto

declare montmul_loop.simps [simp del]

text \<open>
  \<open>__mpi_montmul(A, B, N, mm, T)\<close> writes \<open>A\<close> and the temporary \<open>T\<close>. \<open>A\<close> and \<open>B\<close> may be the
  same object: \<open>B\<close> is read in the loop only, and \<open>A\<close> is written after it.
\<close>

definition mpi_montmul ::
    "TlsMpi \<Rightarrow> TlsMpi \<Rightarrow> TlsMpi \<Rightarrow> limb \<Rightarrow> TlsMpi \<Rightarrow> (TlsMpi \<times> TlsMpi) res" where
  "mpi_montmul A B N mm T =
     (if limbs T < used N + 1 \<or> mpi_p T = [] then Fault
      else
        (let n = used N;
             m = (if used B < n then used B else n)
         in rbind (montmul_loop (mpi_p A) (mpi_p B) (mpi_p N) mm n m 0
                     (replicate (limbs T) 0)) (\<lambda>t.
              (let T1 = mpi_fixup_used (T\<lparr>mpi_p := t\<rparr>) (limbs T) in
               if limbs A < n + 1 \<or> limbs T < 2 * n + 1 then Fault
               else
                 (let A1 = mpi_fixup_used
                             (A\<lparr>mpi_p := take (n + 1) (drop n t) @ drop (n + 1) (mpi_p A)\<rparr>)
                             (n + 1)
                  in
                  if ttls_mpi_cmp_abs A1 N \<ge> 0 then
                    rbind (mpi_sub (take (used A1) (mpi_p A1)) (take (used N) (mpi_p N))) (\<lambda>rs.
                      Ok (mpi_fixup_used (A1\<lparr>mpi_p := rs @ drop (length rs) (mpi_p A1)\<rparr>)
                            (used A1), T1))
                  else
                    rbind (mpi_sub (take (used T1) (mpi_p T1)) (take (used A1) (mpi_p A1))) (\<lambda>rs.
                      Ok (A1, mpi_fixup_used (T1\<lparr>mpi_p := rs @ drop (length rs) (mpi_p T1)\<rparr>)
                                (used T1))))))))"

definition mpi_montred :: "TlsMpi \<Rightarrow> TlsMpi \<Rightarrow> limb \<Rightarrow> TlsMpi \<Rightarrow> (TlsMpi \<times> TlsMpi) res" where
  "mpi_montred A N mm T = mpi_montmul A \<lparr>mpi_s = 1, used = 1, mpi_p = [1]\<rparr> N mm T"

text \<open>
  \<open>ttls_mpi_exp_mod\<close>. The window table \<open>W\<close> is the per-CPU buffer of \<open>2 ^ MPI_W_SZ\<close> MPIs,
  which \<open>memset\<close> clears at the start: every entry has sign 0, no limbs and a \<open>NULL\<close>
  array.
\<close>

definition MPI_W_SZ :: nat where "MPI_W_SZ = 6"

definition W_cleared :: "TlsMpi list" where
  "W_cleared = replicate (2 ^ MPI_W_SZ) \<lparr>mpi_s = 0, used = 0, mpi_p = []\<rparr>"

text \<open>\<open>n\<close> Montgomery squarings of \<open>X\<close>.\<close>

fun mont_squarings ::
    "nat \<Rightarrow> TlsMpi \<Rightarrow> limb \<Rightarrow> TlsMpi \<times> TlsMpi \<Rightarrow> (TlsMpi \<times> TlsMpi) res" where
  "mont_squarings k N mm XT =
     (if k > 0
      then rbind (mpi_montmul (fst XT) (fst XT) N mm (snd XT)) (mont_squarings (k - 1) N mm)
      else Ok XT)"

declare mont_squarings.simps [simp del]

text \<open>The loop \<open>for (i = j + 1; i < (one << wsize); i++)\<close> that fills the window table.\<close>

function exp_table ::
    "mpi_env \<Rightarrow> TlsMpi \<Rightarrow> limb \<Rightarrow> nat \<Rightarrow> nat \<Rightarrow> TlsMpi list \<times> TlsMpi
      \<Rightarrow> (TlsMpi list \<times> TlsMpi) res" where
  "exp_table e N mm lim i WT =
     (if i < lim then
        rbind (ttls_mpi_grow e (fst WT ! i) (used N + 1)) (\<lambda>Wi.
        rbind (ttls_mpi_copy e Wi (fst WT ! (i - 1))) (\<lambda>Wi1.
        rbind (mpi_montmul Wi1 (fst WT ! 1) N mm (snd WT)) (\<lambda>(Wi2, T1).
          exp_table e N mm lim (i + 1) ((fst WT)[i := Wi2], T1))))
      else Ok WT)"
  by pat_completeness auto
termination
  by (relation "measure (\<lambda>(e, N, mm, lim, i, WT). lim - i)") auto

declare exp_table.simps [simp del]

text \<open>
  The bits of \<open>E\<close> as the loop \<open>while (1)\<close> reads them: limb \<open>E->used - 1\<close> first, and in a
  limb bit 63 first.
\<close>

definition limb_bits :: "limb \<Rightarrow> limb list" where
  "limb_bits x = map (\<lambda>k. drop_bit k x AND 1) (rev [0..<64])"

definition exp_bits :: "TlsMpi \<Rightarrow> limb list" where
  "exp_bits E = concat (map limb_bits (rev (take (used E) (mpi_p E))))"

text \<open>
  The state of the loop: \<open>X\<close>, \<open>T\<close>, and \<open>state\<close>, \<open>nbits\<close> and \<open>wbits\<close>.
\<close>

record exp_state =
  exp_X :: TlsMpi
  exp_T :: TlsMpi
  exp_st :: nat
  exp_nbits :: nat
  exp_wbits :: nat

fun exp_loop ::
    "TlsMpi \<Rightarrow> limb \<Rightarrow> nat \<Rightarrow> TlsMpi list \<Rightarrow> limb list \<Rightarrow> exp_state \<Rightarrow> exp_state res" where
  "exp_loop N mm wsize W [] S = Ok S"
| "exp_loop N mm wsize W (ei # bits) S =
     (if ei = 0 \<and> exp_st S = 0 then exp_loop N mm wsize W bits S
      else if ei = 0 \<and> exp_st S = 1 then
        rbind (mpi_montmul (exp_X S) (exp_X S) N mm (exp_T S)) (\<lambda>(X1, T1).
          exp_loop N mm wsize W bits (S\<lparr>exp_X := X1, exp_T := T1\<rparr>))
      else
        (let nbits = exp_nbits S + 1;
             wbits = exp_wbits S OR push_bit (wsize - nbits) (unat ei)
         in
         if nbits = wsize then
           rbind (mont_squarings wsize N mm (exp_X S, exp_T S)) (\<lambda>(X1, T1).
             if wbits \<ge> length W then Fault
             else rbind (mpi_montmul X1 (W ! wbits) N mm T1) (\<lambda>(X2, T2).
               exp_loop N mm wsize W bits
                 \<lparr>exp_X = X2, exp_T = T2, exp_st = 1, exp_nbits = 0, exp_wbits = 0\<rparr>))
         else exp_loop N mm wsize W bits
                (S\<lparr>exp_st := 2, exp_nbits := nbits, exp_wbits := wbits\<rparr>)))"

text \<open>The loop \<open>for (i = 0; i < nbits; i++)\<close> over the bits left in the window.\<close>

fun exp_rest ::
    "TlsMpi \<Rightarrow> limb \<Rightarrow> nat \<Rightarrow> TlsMpi \<Rightarrow> nat \<Rightarrow> nat \<Rightarrow> TlsMpi \<times> TlsMpi
      \<Rightarrow> (TlsMpi \<times> TlsMpi) res" where
  "exp_rest N mm wsize W1 k wbits XT =
     (if k > 0 then
        rbind (mpi_montmul (fst XT) (fst XT) N mm (snd XT)) (\<lambda>(X1, T1).
          (let wbits1 = (2 * wbits) mod 2 ^ 64 in
           if (wbits1 AND (2 ^ wsize)) \<noteq> 0
           then rbind (mpi_montmul X1 W1 N mm T1) (exp_rest N mm wsize W1 (k - 1) wbits1)
           else exp_rest N mm wsize W1 (k - 1) wbits1 (X1, T1)))
      else Ok XT)"

declare exp_rest.simps [simp del]

definition exp_wsize :: "nat \<Rightarrow> nat" where
  "exp_wsize i = (if i > 671 then 6 else if i > 239 then 5 else if i > 79 then 4
                  else if i > 23 then 3 else 1)"

text \<open>
  The first part of \<open>ttls_mpi_exp_mod\<close>, up to the window table. It gives \<open>X\<close>, \<open>RR\<close>, the
  table and \<open>T\<close>. \<open>A\<close> stands for \<open>Apos\<close> when \<open>A\<close> is negative.
\<close>

definition exp_rr :: "mpi_env \<Rightarrow> TlsMpi \<Rightarrow> TlsMpi \<Rightarrow> TlsMpi res option" where
  "exp_rr e RR N =
     (if mpi_p RR = [] then
        obind (Some (ttls_mpi_lset e RR 1)) (\<lambda>RR1.
        obind (Some (ttls_mpi_shift_l e RR1 (used N * 2 * BIL))) (\<lambda>RR2.
          ttls_mpi_mod_mpi e True RR2 RR2 N))
      else Some (Ok RR))"

definition exp_w1 :: "mpi_env \<Rightarrow> TlsMpi \<Rightarrow> TlsMpi \<Rightarrow> TlsMpi \<Rightarrow> TlsMpi res option" where
  "exp_w1 e W1 A N =
     (if ttls_mpi_cmp_mpi A N \<ge> 0 then ttls_mpi_mod_mpi e False W1 A N
      else Some (ttls_mpi_copy e W1 A))"

definition exp_window ::
    "mpi_env \<Rightarrow> TlsMpi \<Rightarrow> limb \<Rightarrow> nat \<Rightarrow> TlsMpi list \<times> TlsMpi \<Rightarrow> (TlsMpi list \<times> TlsMpi) res" where
  "exp_window e N mm wsize WT =
     (case WT of (W, T) \<Rightarrow>
        if wsize > 1 then
          (let j = 2 ^ (wsize - 1) in
           rbind (ttls_mpi_grow e (W ! j) (used N + 1)) (\<lambda>Wj.
           rbind (ttls_mpi_copy e Wj (W ! 1)) (\<lambda>Wj1.
           rbind (mont_squarings (wsize - 1) N mm (Wj1, T)) (\<lambda>(Wj2, T1).
             exp_table e N mm (2 ^ wsize) (j + 1) (W[j := Wj2], T1)))))
        else Ok (W, T))"

definition ttls_mpi_exp_mod ::
    "mpi_env \<Rightarrow> TlsMpi \<Rightarrow> TlsMpi \<Rightarrow> TlsMpi \<Rightarrow> TlsMpi \<Rightarrow> TlsMpi \<Rightarrow> (TlsMpi \<times> TlsMpi) res option" where
  "ttls_mpi_exp_mod e X A E N RR =
     (if ttls_mpi_cmp_int N 0 \<le> 0 \<or> mpi_p N ! 0 AND 1 = 0 then Some (Err EINVAL)
      else if ttls_mpi_cmp_int E 0 < 0 then Some (Err EINVAL)
      else
        (let mm = mpi_montg_init N;
             wsize = exp_wsize (ttls_mpi_bitlen E);
             j = used N + 1;
             neg = (mpi_s A = - 1)
         in
         obind (Some (or_enomem (ttls_mpi_grow e X j))) (\<lambda>X0.
         obind (Some (or_enomem (mpi_realloc e (W_cleared ! 1) j False False))) (\<lambda>W1.
         obind (Some (or_enomem (mpi_realloc e ttls_mpi_init (j * 2) False False))) (\<lambda>T.
         obind (Some (if neg then rbind (ttls_mpi_copy e ttls_mpi_init A)
                                   (\<lambda>Apos. Ok (Apos\<lparr>mpi_s := 1\<rparr>))
                      else Ok A)) (\<lambda>A1.
         obind (exp_rr e RR N) (\<lambda>RR1.
         obind (exp_w1 e W1 A1 N) (\<lambda>W1a.
         obind (Some (mpi_montmul W1a RR1 N mm T)) (\<lambda>(W1b, T1).
         obind (Some (ttls_mpi_copy e X0 RR1)) (\<lambda>X1.
         obind (Some (mpi_montred X1 N mm T1)) (\<lambda>(X2, T2).
         obind (Some (exp_window e N mm wsize (W_cleared[1 := W1b], T2))) (\<lambda>(W, T3).
         obind (Some (exp_loop N mm wsize W (exp_bits E)
                  \<lparr>exp_X = X2, exp_T = T3, exp_st = 0, exp_nbits = 0, exp_wbits = 0\<rparr>)) (\<lambda>S.
         obind (Some (exp_rest N mm wsize (W ! 1) (exp_nbits S) (exp_wbits S)
                  (exp_X S, exp_T S))) (\<lambda>(X3, T4).
         obind (Some (mpi_montred X3 N mm T4)) (\<lambda>(X4, T5).
           if neg \<and> used E \<noteq> 0 \<and> mpi_p E ! 0 AND 1 \<noteq> 0
           then obind (Some (ttls_mpi_add_mpi e True (X4\<lparr>mpi_s := - 1\<rparr>) N (X4\<lparr>mpi_s := - 1\<rparr>)))
                  (\<lambda>X5. Some (Ok (X5, RR1)))
           else Some (Ok (X4, RR1)))))))))))))))))"


section \<open>Example environments\<close>

text \<open>
  Two allocators on which the functions are evaluated: \<open>mpi_env0\<close> hands out memory that happens
  to be zero, \<open>mpi_env1\<close> memory whose limbs hold 1.
\<close>

definition mpi_env0 :: mpi_env where
  "mpi_env0 = \<lparr>TTLS_MPI_MAX_LIMBS = 100, TTLS_MPI_MAX_SIZE = 800, junk = 0\<rparr>"

definition mpi_env1 :: mpi_env where
  "mpi_env1 = \<lparr>TTLS_MPI_MAX_LIMBS = 100, TTLS_MPI_MAX_SIZE = 800, junk = 1\<rparr>"

text \<open>The MPI of one limb \<open>v\<close> with sign \<open>sg\<close>.\<close>

definition mpi_of_limb :: "int \<Rightarrow> limb \<Rightarrow> TlsMpi" where
  "mpi_of_limb sg v = \<lparr>mpi_s = sg, used = 1, mpi_p = [v]\<rparr>"

section \<open>Byte strings and well-formed numbers\<close>

text \<open>The number that a byte string denotes, most significant byte first.\<close>

definition be_bytes_val :: "byte list \<Rightarrow> nat" where
  "be_bytes_val bs = foldl (\<lambda>acc b. 256 * acc + unat b) 0 bs"

text \<open>The length in bytes of a natural number; 0 has no bytes.\<close>

definition byte_length :: "nat \<Rightarrow> nat" where
  "byte_length v = (nat_bitlen v + 7) div 8"

text \<open>
  The limbs in use lie within the array, and the most significant one is not zero when
  there is more than one.
\<close>

definition mpi_wf :: "TlsMpi \<Rightarrow> bool" where
  "mpi_wf X = (used X \<le> limbs X \<and> (used X > 1 \<longrightarrow> mpi_p X ! (used X - 1) \<noteq> 0))"

text \<open>
  The limbs that the two loops of \<open>ttls_mpi_read_binary\<close> write for a buffer, least
  significant limb first.
\<close>

definition read_limbs :: "byte list \<Rightarrow> limb list" where
  "read_limbs buf =
     (if length buf mod CIL \<noteq> 0
      then read_full_limbs buf (length buf) @ [read_last_limb buf (length buf mod CIL) 0 0]
      else read_full_limbs buf (length buf))"

text \<open>A number of two limbs and ten bytes.\<close>

definition mpi_ten_bytes :: TlsMpi where
  "mpi_ten_bytes = \<lparr>mpi_s = 1, used = 2, mpi_p = [0x0102030405060708, 0x0A0B, 0]\<rparr>"

chapter \<open>Properties of the TLS server side\<close>

section \<open>The state machine makes progress\<close>

lemma skip_delta_zero:
  assumes "drop d bs \<noteq> []" "\<not> length (drop d bs) < length bs"
  shows "d = 0"
  using assms by (cases d) auto

lemma st_CS_SKIP_progress:
  assumes "st_CS_SKIP tls bs = Move st1 tls1 rest" "rest \<noteq> []"
      "\<not> step_measure st1 rest < step_measure TTLS_CH_HS_CS_SKIP bs"
  shows "st1 = TTLS_CH_HS_CS_SKIP \<and> rest = bs \<and> tls1 = tls"
proof -
  define d where "d = nat (min (int (length bs))
     (int (cs_total_len (hs tls)) - int (cs_cur_len (hs tls))) mod 65536)"
  have rest: "rest = drop d bs"
    using assms(1) by (auto simp: st_CS_SKIP_def Let_def d_def split: if_splits)
  have st1: "st1 = TTLS_CH_HS_CS_SKIP \<or> st1 = TTLS_CH_HS_COMPN"
    using assms(1) by (auto simp: st_CS_SKIP_def Let_def split: if_splits)
  have st1': "st1 = TTLS_CH_HS_CS_SKIP"
    using st1 assms(3) by (auto simp: step_measure_def)
  have "\<not> length (drop d bs) < length bs"
    using assms(3) st1' rest by (simp add: step_measure_def)
  then have d0: "d = 0" using skip_delta_zero assms(2) rest by blast
  have "tls1 = tls"
    using assms(1) d0 st1' unfolding st_CS_SKIP_def Let_def d_def[symmetric]
    by (auto split: if_splits)
  then show ?thesis using st1' rest d0 by simp
qed

text \<open>
  The result \<open>Spins\<close> of \<open>ch_fsm\<close> stands for one situation only: state
  \<open>TTLS_CH_HS_CS_SKIP\<close> moves to itself with the same bytes and the same context.
\<close>

lemma move_progress:
  assumes "ch_body st = Some body" "body tls bs = Move st1 tls1 rest" "rest \<noteq> []"
      "\<not> step_measure st1 rest < step_measure st bs"
  shows "st = TTLS_CH_HS_CS_SKIP \<and> st1 = TTLS_CH_HS_CS_SKIP \<and> rest = bs \<and> tls1 = tls"
proof (cases st)
  case TTLS_CH_HS_VER
  then show ?thesis using assms
    by (auto simp: st_VER_def ver_check_def step_measure_def Let_def split: if_splits list.splits)
next
  case TTLS_CH_HS_RND
  then show ?thesis using assms
    by (auto simp: st_RND_def step_measure_def Let_def split: if_splits)
next
  case TTLS_CH_HS_SLEN
  then show ?thesis using assms
    by (auto simp: st_SLEN_def step_measure_def Let_def split: if_splits list.splits)
next
  case TTLS_CH_HS_SESS
  then show ?thesis using assms
    by (auto simp: st_SESS_def step_measure_def Let_def split: if_splits)
next
  case TTLS_CH_HS_CSLEN
  then show ?thesis using assms
    by (auto simp: st_CSLEN_def cslen_check_def step_measure_def Let_def
        split: if_splits list.splits)
next
  case TTLS_CH_HS_CS
  then show ?thesis using assms
    by (auto simp: st_CS_def cs_store_def step_measure_def Let_def
        split: if_splits list.splits prod.splits)
next
  case TTLS_CH_HS_CS_SKIP
  then show ?thesis using assms st_CS_SKIP_progress by auto
qed (use assms in auto)

section \<open>The protocol version\<close>

lemma ver_one_chunk:
  assumes "rlen tls = 0" "b0 \<noteq> 3 \<or> b1 \<noteq> 3"
  shows "ch_fsm TTLS_CH_HS_VER tls (b0 # b1 # rest) =
           Returned TTLS_ERR_BAD_HS_PROTOCOL_VERSION (bad_version tls b0 b1)"
  using assms
  by (auto simp: ch_fsm.simps[of TTLS_CH_HS_VER] st_VER_def ver_check_def Let_def bad_version_def
      ttls_send_alert_def TTLS_MAJOR_VERSION_3_def TTLS_MINOR_VERSION_3_def)

lemma ver_first_byte:
  assumes "rlen tls = 0"
  shows "ch_fsm TTLS_CH_HS_VER tls [b0] =
           Returned T_POSTPONE (tls\<lparr>major := b0, substate := TTLS_CH_HS_VER, rlen := 1\<rparr>)"
  using assms
  by (auto simp: ch_fsm.simps[of TTLS_CH_HS_VER] st_VER_def)

lemma ver_second_byte:
  assumes "rlen tls = 1" "major tls \<noteq> 3 \<or> b1 \<noteq> 3"
  shows "ch_fsm TTLS_CH_HS_VER tls (b1 # rest) =
           Returned TTLS_ERR_BAD_HS_PROTOCOL_VERSION (bad_version tls (major tls) b1)"
  using assms
  by (auto simp: ch_fsm.simps[of TTLS_CH_HS_VER] st_VER_def ver_check_def Let_def bad_version_def
      ttls_send_alert_def TTLS_MAJOR_VERSION_3_def TTLS_MINOR_VERSION_3_def)

text \<open>A message of another handshake type is refused before the version is looked at.\<close>

lemma client_hello_bad_type:
  assumes "hstype tls \<noteq> TTLS_HS_CLIENT_HELLO"
  shows "ttls_parse_client_hello tls buf = Returned TTLS_ERR_BAD_HS_CLIENT_HELLO tls"
  using assms by (simp add: ttls_parse_client_hello_def)

text \<open>
  C10. A ClientHello (a message whose handshake type is \<open>TTLS_HS_CLIENT_HELLO\<close>) whose
  version is not 3.3 is refused as soon as both bytes of the version are read, whether
  they come in one chunk or in two: the call returns \<open>TTLS_ERR_BAD_HS_PROTOCOL_VERSION\<close>
  after one fatal \<open>protocol_version\<close> alert. The context differs from the one before the
  message only in the version, the remaining length and the alert (and in \<open>rlen\<close> when the
  first byte came alone): no later field of the message is read, and the chunks that
  follow are not looked at.
\<close>

theorem client_hello_version:
  assumes "hstype tls = TTLS_HS_CLIENT_HELLO"
    and "substate tls = TTLS_CH_HS_VER" "rlen tls = 0" "(b0, b1) \<noteq> (3, 3)"
  shows "ch_feed tls ((b0 # b1 # rest) # chunks) =
           Returned TTLS_ERR_BAD_HS_PROTOCOL_VERSION (bad_version tls b0 b1) \<and>
         ch_feed tls ([b0] # (b1 # rest) # chunks) =
           Returned TTLS_ERR_BAD_HS_PROTOCOL_VERSION ((bad_version tls b0 b1)\<lparr>rlen := 1\<rparr>)"
proof -
  from assms(4) have ne: "b0 \<noteq> 3 \<or> b1 \<noteq> 3" by simp
  have one: "ch_feed tls ((b0 # b1 # rest) # chunks) =
           Returned TTLS_ERR_BAD_HS_PROTOCOL_VERSION (bad_version tls b0 b1)"
    using ver_one_chunk[OF assms(3) ne] assms(1,2) by (simp add: ttls_parse_client_hello_def)
  let ?t = "tls\<lparr>major := b0, substate := TTLS_CH_HS_VER, rlen := 1\<rparr>"
  have "ch_fsm TTLS_CH_HS_VER ?t (b1 # rest) =
           Returned TTLS_ERR_BAD_HS_PROTOCOL_VERSION (bad_version ?t (major ?t) b1)"
    by (rule ver_second_byte) (use ne in auto)
  moreover have "bad_version ?t (major ?t) b1 = (bad_version tls b0 b1)\<lparr>rlen := 1\<rparr>"
    using assms(2) by (simp add: bad_version_def)
  ultimately have "ch_feed tls ([b0] # (b1 # rest) # chunks) =
           Returned TTLS_ERR_BAD_HS_PROTOCOL_VERSION
             ((bad_version tls b0 b1)\<lparr>rlen := 1\<rparr>)"
    using ver_first_byte[OF assms(3), of b0] assms(1,2)
    by (simp add: ttls_parse_client_hello_def)
  with one show ?thesis by simp
qed

theorem client_hello_version_witness:
  "ch_feed tls0 ([3, 1, 7] # []) =
           Returned TTLS_ERR_BAD_HS_PROTOCOL_VERSION (bad_version tls0 3 1) \<and>
   ch_feed tls0 ([3] # [1, 7] # []) =
           Returned TTLS_ERR_BAD_HS_PROTOCOL_VERSION ((bad_version tls0 3 1)\<lparr>rlen := 1\<rparr>)"
  using client_hello_version[of tls0 3 1 "[7]" "[]"]
  by (simp add: tls0_def TTLS_HS_CLIENT_HELLO_def)

section \<open>The supported point formats extension\<close>

lemma point_formats_loop_find:
  "point_formats_loop tls fmts =
     (case find (\<lambda>p. p = TTLS_ECP_PF_UNCOMPRESSED \<or> p = TTLS_ECP_PF_COMPRESSED) fmts of
        None \<Rightarrow> tls
      | Some p \<Rightarrow> tls\<lparr>hs := (hs tls)\<lparr>point_format := p\<rparr>\<rparr>)"
  by (induction fmts) auto

text \<open>
  C5, as the code has it. For a well-formed extension body (a length byte \<open>n\<close> and \<open>n\<close>
  formats, \<open>n = 0\<close> included) the handler returns success, sets \<open>cli_exts\<close> and stores
  the first format of the list that is the uncompressed or the compressed one,
  whichever it is; when the list has neither, the point format is left as it was.
\<close>

theorem point_formats_first_known:
  assumes "unat n = length fmts"
  shows "ttls_parse_supported_point_formats tls (n # fmts) =
           (RC_OK,
            case find (\<lambda>p. p = TTLS_ECP_PF_UNCOMPRESSED \<or> p = TTLS_ECP_PF_COMPRESSED) fmts of
              None \<Rightarrow> tls\<lparr>hs := (hs tls)\<lparr>cli_exts := True\<rparr>\<rparr>
            | Some p \<Rightarrow> tls\<lparr>hs := (hs tls)\<lparr>cli_exts := True, point_format := p\<rparr>\<rparr>)"
  using assms
  by (simp add: ttls_parse_supported_point_formats_def point_formats_loop_find
      split: option.splits)

theorem point_formats_first_known_witness:
  "unat (3 :: byte) = length [2, 1, 0 :: byte] \<and>
   ttls_parse_supported_point_formats tls0 [3, 2, 1, 0] =
     (RC_OK, tls0\<lparr>hs := (hs tls0)\<lparr>cli_exts := True, point_format := 1\<rparr>\<rparr>)"
  using point_formats_first_known[of 3 "[2, 1, 0]" tls0]
  by (simp add: TTLS_ECP_PF_UNCOMPRESSED_def TTLS_ECP_PF_COMPRESSED_def)

text \<open>
  The claim as the specification states it fails twice. The list (compressed,
  uncompressed) offers the uncompressed format, and the handler selects the compressed
  one. The list (compressed) does not offer the uncompressed format, and the handler
  changes the point format of the context, which was 0, to 1.
\<close>

theorem point_formats_counterexample:
  "TTLS_ECP_PF_UNCOMPRESSED \<in> set [1, 0] \<and>
   fst (ttls_parse_supported_point_formats tls0 [2, 1, 0]) = RC_OK \<and>
   point_format (hs (snd (ttls_parse_supported_point_formats tls0 [2, 1, 0])))
     \<noteq> TTLS_ECP_PF_UNCOMPRESSED \<and>
   TTLS_ECP_PF_UNCOMPRESSED \<notin> set [1] \<and>
   point_format (hs (snd (ttls_parse_supported_point_formats tls0 [1, 1])))
     \<noteq> point_format (hs tls0)"
  by (simp add: ttls_parse_supported_point_formats_def TTLS_ECP_PF_UNCOMPRESSED_def
      TTLS_ECP_PF_COMPRESSED_def tls0_def)

section \<open>The session ticket extension\<close>

text \<open>
  With both ticket callbacks configured and a non-empty extension body, the handler
  returns success whatever \<open>f_ticket_parse\<close> returns. When the callback fails (\<open>r \<noteq> 0\<close>)
  the only change of the context is that \<open>new_session_ticket\<close> is set. When it succeeds
  the session is the one the callback produced, with \<open>id_len\<close> and the first \<open>id_len\<close>
  bytes of \<open>tls->sess.id\<close> kept, \<open>resume\<close> is set and \<open>new_session_ticket\<close> is cleared.
\<close>

lemma session_ticket_ext_cases:
  assumes "f_ticket_parse (conf tls) = Some parse" "f_ticket_write (conf tls) = Some w"
    and "buf \<noteq> []" "parse buf = (r, session)"
  shows "ttls_parse_session_ticket_ext tls buf =
           (RC_OK,
            if r \<noteq> 0 then tls\<lparr>hs := (hs tls)\<lparr>new_session_ticket := True\<rparr>\<rparr>
            else tls\<lparr>sess := session\<lparr>id_len := id_len (sess tls),
                                      id_arr := take (id_len (sess tls)) (id_arr (sess tls))
                                                @ drop (id_len (sess tls)) (id_arr session)\<rparr>,
                     hs := (hs tls)\<lparr>resume := True, new_session_ticket := False\<rparr>\<rparr>)"
  using assms
  by (simp add: ttls_parse_session_ticket_ext_def Let_def memcpy_bytes_def)

text \<open>
  The state \<open>TTLS_CH_HS_SESS\<close> stores no byte of the session id: with the length of the id
  below the length of the array, it leaves through \<open>TTLS_CH_HS_CSLEN\<close> or asks for more
  bytes, and the session of the context is the one before.
\<close>

lemma st_SESS_keeps_id:
  "st_SESS tls bs = fsm_step.Fault \<or>
   (\<exists>tls1 rest. (st_SESS tls bs = Exit tls1 rest \<or> st_SESS tls bs = Move TTLS_CH_HS_CSLEN tls1 rest)
      \<and> sess tls1 = sess tls)"
  by (simp add: st_SESS_def Let_def)

text \<open>
  Claim C7. A ticket that decrypts is to restore the session with the session id that the
  client sent. The parser reads the version, the random bytes and the session id
  \<open>AB CD\<close> of a ClientHello and reaches the cipher suite list with \<open>id_len = 2\<close> and the
  bytes of \<open>tls->sess.id\<close> still zero; the ticket handler then restores the session with
  the id \<open>00 00\<close>.
\<close>

theorem session_ticket_drops_client_id:
  "ttls_parse_client_hello (tls_ticket 0) ([3, 3] @ replicate 32 0x55 @ [2, 0xAB, 0xCD])
     = Returned T_POSTPONE tls_sid
   \<and> sess tls_sid = \<lparr>id_len = 2, id_arr = replicate 32 0, ciphersuite = 0,
                        master = replicate 48 0\<rparr>
   \<and> sess (snd (ttls_parse_session_ticket_ext tls_sid [5, 6]))
       = sess1\<lparr>id_len := 2, id_arr := [0, 0] @ replicate 30 7\<rparr>
   \<and> resume (hs (snd (ttls_parse_session_ticket_ext tls_sid [5, 6])))"
proof -
  have r2: "replicate 2 (0::byte) = [0, 0]"
    by (simp add: numeral_2_eq_2)
  show ?thesis
    by (simp add: ttls_parse_client_hello_def tls_ticket_def tls0_def tls_sid_def sess1_def
        TTLS_HS_CLIENT_HELLO_def TTLS_MAJOR_VERSION_3_def TTLS_MINOR_VERSION_3_def
        ch_fsm.simps [of TTLS_CH_HS_VER] ch_fsm.simps [of TTLS_CH_HS_RND]
        ch_fsm.simps [of TTLS_CH_HS_SLEN] ch_fsm.simps [of TTLS_CH_HS_SESS]
        st_VER_def ver_check_def st_RND_def st_SLEN_def st_SESS_def step_measure_def
        ttls_parse_session_ticket_ext_def memcpy_bytes_def memcmp_fast_def Let_def r2)
qed

section \<open>The encrypted premaster secret\<close>

lemma unat_neg32:
  fixes d :: "32 word"
  assumes "d \<noteq> 0"
  shows "unat (- d) = 2^32 - unat d"
proof -
  have pos: "0 < unat d" using assms by (simp add: unat_gt_0)
  have lt1: "unat d < 2^32" and lt2: "unat (- d) < 2^32"
    using unsigned_less[of d, where ?'a=nat] unsigned_less[of "- d", where ?'a=nat] by simp_all
  have "unat (d + (- d)) = (unat d + unat (- d)) mod 2^32"
    using unat_word_ariths(1)[of d "- d"] by simp
  then have z: "(unat d + unat (- d)) mod 2^32 = 0" by simp
  then obtain k where k: "unat d + unat (- d) = 2^32 * k" by (auto simp: mod_eq_0_iff_dvd)
  have "k = 1"
  proof -
    have "2^32 * k < 2^32 * 2" using lt1 lt2 k by linarith
    then have "k < 2" by simp
    moreover have "k \<noteq> 0" using k pos by auto
    ultimately show ?thesis by simp
  qed
  with k show ?thesis by simp
qed

lemma nonzero_msb32:
  fixes d :: "32 word"
  assumes "d \<noteq> 0"
  shows "drop_bit 31 (d OR (- d)) = 1"
proof -
  define x where "x = d OR (- d)"
  have ge: "2^31 \<le> unat x"
  proof (cases "2^31 \<le> unat d")
    case True
    have "d \<le> x" unfolding x_def by (rule le_word_or2)
    then have "unat d \<le> unat x" by (simp add: word_le_nat_alt)
    with True show ?thesis by linarith
  next
    case False
    then have "2^31 \<le> unat (- d)" using unat_neg32[OF assms] by simp
    moreover have "- d \<le> x" unfolding x_def by (metis le_word_or2 or.commute)
    then have "unat (- d) \<le> unat x" by (simp add: word_le_nat_alt)
    ultimately show ?thesis by linarith
  qed
  have lt: "unat x < 2^32" using unsigned_less[of x, where ?'a=nat] by simp
  have "unat (drop_bit 31 x) = drop_bit 31 (unat x)"
    by (rule unat_drop_bit_eq)
  also have "\<dots> = unat x div 2^31"
    by (rule drop_bit_eq_div)
  also have "\<dots> = 1" using ge lt by (simp add: div_nat_eqI)
  finally have "drop_bit 31 x = 1" by (metis unat_1 word_unat_eq_iff)
  then show ?thesis by (simp only: x_def)
qed

lemma ucast_m1: "(ucast (- 1 :: 32 word) :: 8 word) = 0xFF"
proof -
  have "(ucast (- 1 :: 32 word) :: 8 word) = - 1"
    by (rule bit_word_eqI) (simp add: bit_simps)
  then show ?thesis by simp
qed

lemma pms_mask_eq: "pms_mask diff = (if diff = 0 then 0 else 0xFF)"
proof (cases "diff = 0")
  case True
  then show ?thesis by (simp add: pms_mask_def)
next
  case False
  have "pms_mask diff = ucast (- (1 :: 32 word))"
    unfolding pms_mask_def by (simp only: nonzero_msb32[OF False])
  then show ?thesis using False ucast_m1 by simp
qed

lemma unat_ucast_8_32: "unat (ucast (w::8 word) :: 32 word) = unat w"
proof -
  have "unat (ucast w :: 32 word) = take_bit 32 (unat w)"
    by (simp add: unsigned_ucast_eq)
  moreover have "unat w < 2^8" using unsigned_less[of w, where ?'a = nat] by simp
  then have "unat w < 2^32" by simp
  ultimately show ?thesis by (simp add: take_bit_nat_eq_self)
qed

lemma ucast_up_eq_zero: "((ucast (w :: 8 word) :: 32 word) = 0) = (w = 0)"
  using unat_ucast_8_32[of w] by (metis unat_eq_0)

lemma xor_eq_zero_nat: "((a::nat) XOR b = 0) = (a = b)"
proof
  assume h: "a XOR b = 0"
  have "a = (a XOR b) XOR b" by (simp add: xor.assoc)
  also have "\<dots> = b" using h by simp
  finally show "a = b" .
qed simp

lemma xor_eq_zero_word: "((a::'a::len word) XOR b = 0) = (a = b)"
proof
  assume h: "a XOR b = 0"
  have "a = (a XOR b) XOR b" by (simp add: xor.assoc)
  also have "\<dots> = b" using h by simp
  finally show "a = b" .
qed simp

lemma ucast_len_xor:
  fixes len :: "64 word"
  assumes "unat len < 2^32"
  shows "((ucast (len XOR 48) :: 32 word) = 0) = (len = 48)"
proof -
  have "unat (ucast (len XOR 48) :: 32 word) = take_bit 32 (unat (len XOR 48))"
    by (simp add: unsigned_ucast_eq)
  also have "unat (len XOR 48) = unat len XOR 48"
    by (simp add: unsigned_xor_eq)
  also have "take_bit 32 (unat len XOR 48) = take_bit 32 (unat len) XOR take_bit 32 (48::nat)"
    by (rule take_bit_xor)
  also have "take_bit 32 (unat len) = unat len"
    using assms by (simp add: take_bit_nat_eq_self)
  also have "take_bit 32 (48::nat) = 48"
    by (simp add: take_bit_nat_eq_self)
  finally have "unat (ucast (len XOR 48) :: 32 word) = unat len XOR 48" .
  then have "((ucast (len XOR 48) :: 32 word) = 0) = (unat len XOR 48 = 0)"
    by (metis unat_eq_0)
  also have "\<dots> = (unat len = 48)" by (rule xor_eq_zero_nat)
  also have "\<dots> = (len = 48)" by (simp add: word_unat_eq_iff)
  finally show ?thesis .
qed

lemma pms_diff_zero_iff:
  assumes "r = 0 \<longrightarrow> unat peer_pmslen \<le> 48"
  shows "(pms_diff r peer_pmslen peer_pms ver1 = 0) = (\<not> pms_mismatch r peer_pmslen peer_pms ver1)"
proof (cases "r = 0")
  case True
  then have "unat peer_pmslen < 2^32" using assms by simp
  then show ?thesis
    using True
    by (auto simp add: pms_diff_def pms_mismatch_def or_eq_0_iff ucast_len_xor ucast_up_eq_zero
        xor_eq_zero_word)
next
  case False
  then show ?thesis by (simp add: pms_diff_def pms_mismatch_def or_eq_0_iff)
qed

lemma pms_select_ff:
  assumes "length fake = 48"
  shows "pms_select 0xFF fake peer = fake"
proof -
  have ff: "(0xFF :: byte) = - 1" by simp
  have "pms_select (- 1) fake peer = map (\<lambda>i. fake ! i) [0..<48]"
    unfolding pms_select_def by simp
  also have "\<dots> = fake" using map_nth[of fake] assms by simp
  finally show ?thesis by (simp only: ff)
qed

lemma pms_select_0:
  assumes "length peer = 48"
  shows "pms_select 0 fake peer = peer"
proof -
  have "pms_select 0 fake peer = map (\<lambda>i. peer ! i) [0..<48]"
    unfolding pms_select_def by simp
  also have "\<dots> = peer" using map_nth[of peer] assms by simp
  finally show ?thesis .
qed

text \<open>
  C1. The server key can do RSA (the suite selection picked it for an RSA suite) and
  the message is the two byte length of the key followed by that many bytes. Then
  \<open>ttls_parse_encrypted_pms\<close> returns success whatever \<open>ttls_pk_decrypt\<close> returns, the
  premaster length is 48, and the first 48 bytes of the premaster are the fresh random
  bytes when the decryption failed or the decrypted length or version do not match, and
  the decrypted bytes otherwise. \<open>ttls_pk_decrypt\<close> is given a 48 byte buffer, so its
  output length is at most 48 when it succeeds.
\<close>

theorem encrypted_pms_never_fails:
  assumes can: "pk_can_do_rsa env"
    and len: "length msg = pk_len env + 2"
    and b0: "unat (msg ! 0) = (pk_len env div 256) mod 256"
    and b1: "unat (msg ! 1) = pk_len env mod 256"
    and dec: "pk_decrypt env (drop 2 msg) = (r, peer_pmslen, peer_pms)"
    and bufs: "length (rnd_fake_pms env) = 48" "length peer_pms = 48"
    and contract: "r = 0 \<longrightarrow> unat peer_pmslen \<le> 48"
  shows "ttls_parse_encrypted_pms env tls msg =
           Some (RC_OK, tls\<lparr>hs := (hs tls)\<lparr>pmslen := 48,
             premaster :=
               (if pms_mismatch r peer_pmslen peer_pms (max_minor_ver (conf tls))
                then rnd_fake_pms env else peer_pms) @ drop 48 (premaster (hs tls))\<rparr>\<rparr>)"
proof (cases "pms_mismatch r peer_pmslen peer_pms (max_minor_ver (conf tls))")
  case True
  then have "pms_diff r peer_pmslen peer_pms (max_minor_ver (conf tls)) \<noteq> 0"
    using pms_diff_zero_iff[OF contract] by simp
  then have m: "pms_mask (pms_diff r peer_pmslen peer_pms (max_minor_ver (conf tls))) = 0xFF"
    by (simp add: pms_mask_eq)
  show ?thesis
    using can len b0 b1 True
    by (simp add: ttls_parse_encrypted_pms_def Let_def dec m pms_select_ff[OF bufs(1)])
next
  case False
  then have "pms_diff r peer_pmslen peer_pms (max_minor_ver (conf tls)) = 0"
    using pms_diff_zero_iff[OF contract] by simp
  then have m: "pms_mask (pms_diff r peer_pmslen peer_pms (max_minor_ver (conf tls))) = 0"
    by (simp add: pms_mask_eq)
  show ?thesis
    using can len b0 b1 False
    by (simp add: ttls_parse_encrypted_pms_def Let_def dec m pms_select_0[OF bufs(2)])
qed


theorem encrypted_pms_never_fails_witness:
  "ttls_parse_encrypted_pms (env0 0) tls0 [0, 2, 9, 9] =
     Some (RC_OK, tls0\<lparr>hs := (hs tls0)\<lparr>pmslen := 48,
                                       premaster := [3, 3] @ replicate 46 0x11\<rparr>\<rparr>) \<and>
   ttls_parse_encrypted_pms (env0 1) tls0 [0, 2, 9, 9] =
     Some (RC_OK, tls0\<lparr>hs := (hs tls0)\<lparr>pmslen := 48, premaster := replicate 48 0xAA\<rparr>\<rparr>)"
  using encrypted_pms_never_fails[of "env0 0" "[0, 2, 9, 9]" 0 48 "[3, 3] @ replicate 46 0x11" tls0]
    encrypted_pms_never_fails[of "env0 1" "[0, 2, 9, 9]" 1 48 "[3, 3] @ replicate 46 0x11" tls0]
  by (simp add: env0_def tls0_def pms_mismatch_def TTLS_MAX_MAJOR_VERSION_def)

section \<open>The list of cipher suites\<close>

subsection \<open>The suites of the list\<close>

lemma cs_suites_length: "length (cs_suites bs) = length bs div 2"
  by (simp add: cs_suites_def)

lemma cs_suites_nth: "i < length bs div 2 \<Longrightarrow> cs_suites bs ! i = cs_suite bs i"
  by (simp add: cs_suites_def)

lemma take_Suc_suites:
  "q < length bs div 2 \<Longrightarrow> take (Suc q) (cs_suites bs) = take q (cs_suites bs) @ [cs_suite bs q]"
  by (simp add: take_Suc_conv_app_nth cs_suites_length cs_suites_nth)

lemma cs_css_length:
  assumes "k \<le> 2 * length css0" "k \<le> length bs"
  shows "length (cs_css css0 bs k) = length css0"
proof -
  have "k div 2 \<le> length bs div 2"
    using assms(2) by (rule div_le_mono)
  then have "length (take (k div 2) (cs_suites bs)) = k div 2"
    by (simp add: cs_suites_length)
  moreover have "(k + 1) div 2 \<le> length css0"
    using assms(1) by linarith
  moreover have "odd k \<Longrightarrow> (k + 1) div 2 = Suc (k div 2)"
    by presburger
  moreover have "even k \<Longrightarrow> (k + 1) div 2 = k div 2"
    by presburger
  ultimately show ?thesis
    by (cases "odd k") (simp_all add: cs_css_def)
qed

lemma cs_css_zero: "cs_css css0 bs 0 = css0"
  by (simp add: cs_css_def)

text \<open>The first byte of a suite goes into the array.\<close>

lemma cs_css_high:
  assumes "even k" "k < 2 * length css0" "k < length bs"
  shows "(cs_css css0 bs k)[k div 2 := push_bit 8 (ucast (bs ! k))] = cs_css css0 bs (Suc k)"
proof -
  define q where "q = k div 2"
  have q: "q < length css0" "q \<le> length bs div 2"
    using assms by (simp_all add: q_def)
  have lt: "length (take q (cs_suites bs)) = q"
    using q(2) by (simp add: cs_suites_length)
  have "(take q (cs_suites bs) @ drop q css0)[q := push_bit 8 (ucast (bs ! k))]
        = take q (cs_suites bs) @ (drop q css0)[0 := push_bit 8 (ucast (bs ! k))]"
    using lt by (simp add: list_update_append)
  also have "(drop q css0)[0 := push_bit 8 (ucast (bs ! k))]
        = push_bit 8 (ucast (bs ! k)) # drop (Suc q) css0"
    using q(1) by (simp add: Cons_nth_drop_Suc [symmetric])
  finally show ?thesis
    using assms(1) by (simp add: cs_css_def q_def [symmetric])
qed

text \<open>Both bytes of a suite go into the array at once.\<close>

lemma cs_css_pair:
  assumes "even k" "k < 2 * length css0" "Suc k < length bs"
  shows "(cs_css css0 bs k)[k div 2 := cs_suite bs (k div 2)] = cs_css css0 bs (Suc (Suc k))"
proof -
  define q where "q = k div 2"
  have q: "q < length css0" "q < length bs div 2"
    using assms by (simp_all add: q_def)
  have lt: "length (take q (cs_suites bs)) = q"
    using q(2) by (simp add: cs_suites_length)
  have "(take q (cs_suites bs) @ drop q css0)[q := cs_suite bs q]
        = take q (cs_suites bs) @ (drop q css0)[0 := cs_suite bs q]"
    using lt by (simp add: list_update_append)
  also have "(drop q css0)[0 := cs_suite bs q] = cs_suite bs q # drop (Suc q) css0"
    using q(1) by (simp add: Cons_nth_drop_Suc [symmetric])
  finally show ?thesis
    using assms(1) q(2) by (simp add: cs_css_def q_def [symmetric] take_Suc_suites)
qed

text \<open>The second byte of a suite is added to the first one.\<close>

lemma cs_css_nth_odd:
  assumes "odd k" "k \<le> length bs"
  shows "cs_css css0 bs k ! (k div 2) = push_bit 8 (ucast (bs ! (k - 1)))"
proof -
  have "k div 2 \<le> length bs div 2"
    using assms(2) by (rule div_le_mono)
  then have "length (take (k div 2) (cs_suites bs)) = k div 2"
    by (simp add: cs_suites_length)
  then show ?thesis
    using assms(1) by (simp add: cs_css_def nth_append)
qed

lemma cs_css_low:
  assumes "odd k" "k < 2 * length css0" "k < length bs"
  shows "(cs_css css0 bs k)[k div 2 := cs_css css0 bs k ! (k div 2) + ucast (bs ! k)]
           = cs_css css0 bs (Suc k)"
proof -
  define q where "q = k div 2"
  have k: "k = Suc (2 * q)"
    using assms(1) by (auto simp: q_def elim: oddE)
  have q: "q < length bs div 2"
    using assms(3) k by linarith
  have lt: "length (take q (cs_suites bs)) = q"
    using q by (simp add: cs_suites_length)
  have v: "cs_css css0 bs k ! q + ucast (bs ! k) = cs_suite bs q"
    using cs_css_nth_odd [OF assms(1), of bs css0] assms(3) k
    by (simp add: q_def [symmetric] cs_suite_def)
  have "(take q (cs_suites bs) @ [push_bit 8 (ucast (bs ! (k - 1)))] @ drop (Suc q) css0)
          [q := cs_suite bs q]
        = take q (cs_suites bs) @ [cs_suite bs q] @ drop (Suc q) css0"
    using lt by (simp add: list_update_append)
  moreover have "(k + 1) div 2 = Suc q" "Suc k div 2 = Suc q" "(Suc k + 1) div 2 = Suc q"
    using k by simp_all
  ultimately show ?thesis
    using assms(1) q unfolding q_def [symmetric] v
    by (simp add: cs_css_def q_def [symmetric] take_Suc_suites)
qed

subsection \<open>The context after \<open>k\<close> bytes\<close>

lemma ctx_eqI:
  fixes a b :: TlsCtx
  assumes "major a = major b" "minor a = minor b" "substate a = substate b" "conf a = conf b"
    and "sess a = sess b" "hstype a = hstype b" "rlen a = rlen b" "hslen a = hslen b"
    and "alerts a = alerts b"
    and "randbytes (hs a) = randbytes (hs b)"
    and "secure_renegotiation (hs a) = secure_renegotiation (hs b)"
    and "cli_exts (hs a) = cli_exts (hs b)" "point_format (hs a) = point_format (hs b)"
    and "new_session_ticket (hs a) = new_session_ticket (hs b)" "resume (hs a) = resume (hs b)"
    and "cs_total_len (hs a) = cs_total_len (hs b)" "cs_cur_len (hs a) = cs_cur_len (hs b)"
    and "css (hs a) = css (hs b)" "pmslen (hs a) = pmslen (hs b)"
    and "premaster (hs a) = premaster (hs b)"
  shows "a = b"
proof -
  have "hs a = hs b"
    using assms(10-20) by (intro TlsHs.equality) simp_all
  then show ?thesis
    using assms(1-9) by (intro TlsCtx.equality) simp_all
qed

lemma cs_at_same:
  "major (cs_at t bs k) = major t" "minor (cs_at t bs k) = minor t" "conf (cs_at t bs k) = conf t"
  "sess (cs_at t bs k) = sess t" "hstype (cs_at t bs k) = hstype t"
  "alerts (cs_at t bs k) = alerts t" "randbytes (hs (cs_at t bs k)) = randbytes (hs t)"
  "cli_exts (hs (cs_at t bs k)) = cli_exts (hs t)"
  "point_format (hs (cs_at t bs k)) = point_format (hs t)"
  "new_session_ticket (hs (cs_at t bs k)) = new_session_ticket (hs t)"
  "resume (hs (cs_at t bs k)) = resume (hs t)" "pmslen (hs (cs_at t bs k)) = pmslen (hs t)"
  "premaster (hs (cs_at t bs k)) = premaster (hs t)"
  by (simp_all add: cs_at_def)

lemma cs_at_store:
  assumes "k \<le> sizeof_css t"
  shows "css (hs (cs_at t bs k)) = cs_css (css (hs t)) bs k"
    and "cs_cur_len (hs (cs_at t bs k)) = 2 * (k div 2)"
    and "hslen (cs_at t bs k) = hslen t - of_nat (2 * (k div 2))"
    and "secure_renegotiation (hs (cs_at t bs k)) =
           (secure_renegotiation (hs t) \<or>
            TTLS_EMPTY_RENEGOTIATION_INFO \<in> set (take (k div 2) (cs_suites bs)))"
  using assms by (simp_all add: cs_at_def min_def)

lemma cs_at_skip:
  assumes "sizeof_css t \<le> k"
  shows "css (hs (cs_at t bs k)) = cs_css (css (hs t)) bs (sizeof_css t)"
    and "cs_cur_len (hs (cs_at t bs k)) = k"
    and "hslen (cs_at t bs k) = hslen t - of_nat k"
    and "secure_renegotiation (hs (cs_at t bs k)) =
           (secure_renegotiation (hs t) \<or>
            TTLS_EMPTY_RENEGOTIATION_INFO \<in> set (take (length (css (hs t))) (cs_suites bs)))"
    and "rlen (cs_at t bs k) = 0"
  using assms by (auto simp: cs_at_def min_def sizeof_css_def)

lemma cs_at_sizeof:
  assumes "k \<le> length bs"
  shows "sizeof_css (cs_at t bs k) = sizeof_css t"
proof -
  have "length (cs_css (css (hs t)) bs (min k (sizeof_css t))) = length (css (hs t))"
    using assms by (intro cs_css_length) (simp_all add: sizeof_css_def)
  then show ?thesis
    by (simp add: sizeof_css_def cs_at_def)
qed

lemma cs_at_zero:
  assumes "cs_start t (length bs)"
  shows "cs_at t bs 0 = t"
  using assms
  by (intro ctx_eqI) (auto simp: cs_at_def cs_start_def cs_css_zero)

subsection \<open>One step of the state machine in the list\<close>

text \<open>A chunk ends after the first byte of a suite.\<close>

lemma cs_step_high:
  assumes "cs_start t (length bs)" "even k" "k < sizeof_css t" "k < length bs"
  shows "ch_fsm TTLS_CH_HS_CS (cs_at t bs k) [bs ! k] = Returned T_POSTPONE (cs_at t bs (Suc k))"
proof -
  let ?a = "cs_at t bs k"
  have evL: "even (length bs)"
    using assms(1) by (simp add: cs_start_def)
  have "odd (Suc k)"
    using assms(2) by simp
  then have ne: "Suc k \<noteq> length bs"
    using evL by metis
  have lt: "Suc k < sizeof_css t"
    using assms(2,3) by (auto simp: sizeof_css_def elim!: evenE)
  have k1: "Suc k \<le> sizeof_css t" "Suc k < sizeof_css t" "Suc k \<noteq> length bs"
      "Suc k div 2 = k div 2"
    using assms(2) lt ne by simp_all
  have sz: "sizeof_css ?a = sizeof_css t"
    using assms(4) by (simp add: cs_at_sizeof)
  have st: "rlen ?a = 0" "cs_cur_len (hs ?a) = k" "substate ?a = TTLS_CH_HS_CS"
    using assms by (auto simp: cs_at_def)
  have body: "st_CS ?a [bs ! k] = Exit (css_set ?a (push_bit 8 (ucast (bs ! k)))) []"
    using assms(3) by (simp add: st_CS_def st sz)
  have eq: "(css_set ?a (push_bit 8 (ucast (bs ! k))))\<lparr>substate := TTLS_CH_HS_CS, rlen := 1\<rparr>
            = cs_at t bs (Suc k)"
  proof (rule ctx_eqI)
    show "css (hs ((css_set ?a (push_bit 8 (ucast (bs ! k))))\<lparr>substate := TTLS_CH_HS_CS, rlen := 1\<rparr>))
          = css (hs (cs_at t bs (Suc k)))"
      using assms k1 cs_css_high [of k "css (hs t)" bs]
      by (simp add: css_set_def st cs_at_store sizeof_css_def)
  qed (use assms k1 in \<open>auto simp: css_set_def cs_at_same cs_at_store cs_at_def\<close>)
  show ?thesis
    using eq by (simp add: ch_fsm.simps [of TTLS_CH_HS_CS] body css_set_def st)
qed

text \<open>A suite is complete: it is checked and counted.\<close>

lemma cs_css_nth_done:
  assumes "q < length bs div 2"
  shows "cs_css css0 bs (2 * q + 2) ! q = cs_suite bs q"
proof -
  have "length (take q (cs_suites bs)) = q"
    using assms by (simp add: cs_suites_length)
  then show ?thesis
    using assms by (simp add: cs_css_def take_Suc_suites nth_append)
qed

lemma scsv_values_differ: "TTLS_FALLBACK_SCSV_VALUE \<noteq> TTLS_EMPTY_RENEGOTIATION_INFO"
  by (simp add: TTLS_FALLBACK_SCSV_VALUE_def TTLS_EMPTY_RENEGOTIATION_INFO_def)

lemma cs_store_step:
  assumes "cs_start t (length bs)" "q < length (css (hs t))" "2 * q + 2 \<le> length bs"
    and "k = 2 * q \<or> k = 2 * q + 1"
    and "X = (cs_at t bs k)\<lparr>hs := (hs (cs_at t bs k))\<lparr>css := cs_css (css (hs t)) bs (2 * q + 2)\<rparr>\<rparr>"
  shows "cs_suite bs q = TTLS_FALLBACK_SCSV_VALUE \<and> minor t < max_minor_ver (conf t) \<Longrightarrow>
           \<exists>Y. cs_store X rest = Return TTLS_ERR_BAD_HS_CLIENT_HELLO Y \<and>
               alerts Y = alerts t @ [(TTLS_ALERT_LEVEL_FATAL, TTLS_ALERT_MSG_INAPROPRIATE_FALLBACK)]"
    and "\<not> (cs_suite bs q = TTLS_FALLBACK_SCSV_VALUE \<and> minor t < max_minor_ver (conf t)) \<Longrightarrow>
           \<exists>Y. cs_store X rest = Move (substate (cs_at t bs (2 * q + 2))) Y rest \<and>
               Y\<lparr>substate := substate (cs_at t bs (2 * q + 2)), rlen := 0\<rparr> = cs_at t bs (2 * q + 2)"
proof -
  have kb: "k \<le> sizeof_css t" "k < length bs" "k div 2 = q" "2 * q + 2 \<le> sizeof_css t"
    using assms(2,3,4) by (auto simp: sizeof_css_def)
  have ql: "q < length bs div 2"
    using assms(3) by linarith
  have cur: "cs_cur_len (hs X) = 2 * q"
    using kb by (simp add: assms(5) cs_at_store)
  have tot: "cs_total_len (hs X) = length bs"
    using kb by (simp add: assms(5) cs_at_def)
  have cs: "css (hs X) ! q = cs_suite bs q"
    using cs_css_nth_done [OF ql, of "css (hs t)"] by (simp add: assms(5))
  have same: "minor X = minor t" "conf X = conf t" "alerts X = alerts t"
    by (simp_all add: assms(5) cs_at_same)
  {
    assume r: "cs_suite bs q = TTLS_FALLBACK_SCSV_VALUE \<and> minor t < max_minor_ver (conf t)"
    have "cs_store X rest = Return TTLS_ERR_BAD_HS_CLIENT_HELLO
            (ttls_send_alert X TTLS_ALERT_LEVEL_FATAL TTLS_ALERT_MSG_INAPROPRIATE_FALLBACK)"
      using r by (simp add: cs_store_def Let_def cur cs ttls_check_scsvs_def same)
    then show "\<exists>Y. cs_store X rest = Return TTLS_ERR_BAD_HS_CLIENT_HELLO Y \<and>
               alerts Y = alerts t @ [(TTLS_ALERT_LEVEL_FATAL, TTLS_ALERT_MSG_INAPROPRIATE_FALLBACK)]"
      by (simp add: ttls_send_alert_def same)
  }
  {
    assume nr: "\<not> (cs_suite bs q = TTLS_FALLBACK_SCSV_VALUE \<and> minor t < max_minor_ver (conf t))"
    define sr where "sr = (secure_renegotiation (hs X) \<or> cs_suite bs q = TTLS_EMPTY_RENEGOTIATION_INFO)"
    define Y where "Y = X\<lparr>hs := (hs X)\<lparr>secure_renegotiation := sr, cs_cur_len := 2 * q + 2\<rparr>,
                        hslen := hslen X - 2\<rparr>"
    define st1 where "st1 = substate (cs_at t bs (2 * q + 2))"
    have chk: "ttls_check_scsvs X (cs_suite bs q)
               = (RC_OK, X\<lparr>hs := (hs X)\<lparr>secure_renegotiation := sr\<rparr>\<rparr>)"
      using nr scsv_values_differ
      by (auto simp: ttls_check_scsvs_def same sr_def intro!: ctx_eqI)
    have st1: "st1 = (if 2 * q + 2 = length bs then TTLS_CH_HS_COMPN else TTLS_CH_HS_CS)"
      using kb(4) by (simp add: st1_def cs_at_def)
    have mv: "cs_store X rest = Move st1 Y rest"
      by (simp add: cs_store_def Let_def cur cs chk tot st1 Y_def)
    have "Y\<lparr>substate := st1, rlen := 0\<rparr> = cs_at t bs (2 * q + 2)"
    proof (rule ctx_eqI)
      show "secure_renegotiation (hs (Y\<lparr>substate := st1, rlen := 0\<rparr>))
            = secure_renegotiation (hs (cs_at t bs (2 * q + 2)))"
        using kb ql
        by (auto simp: Y_def sr_def assms(5) cs_at_store take_Suc_suites)
      show "hslen (Y\<lparr>substate := st1, rlen := 0\<rparr>) = hslen (cs_at t bs (2 * q + 2))"
        using kb by (simp add: Y_def assms(5) cs_at_store)
      show "cs_total_len (hs (Y\<lparr>substate := st1, rlen := 0\<rparr>))
            = cs_total_len (hs (cs_at t bs (2 * q + 2)))"
        using kb by (auto simp: Y_def assms(5) cs_at_def)
      show "rlen (Y\<lparr>substate := st1, rlen := 0\<rparr>) = rlen (cs_at t bs (2 * q + 2))"
        by (simp add: cs_at_def)
    qed (use kb in \<open>simp_all add: Y_def st1_def assms(5) cs_at_same cs_at_store\<close>)
    with mv show "\<exists>Y. cs_store X rest = Move (substate (cs_at t bs (2 * q + 2))) Y rest \<and>
               Y\<lparr>substate := substate (cs_at t bs (2 * q + 2)), rlen := 0\<rparr> = cs_at t bs (2 * q + 2)"
      unfolding st1_def by blast
  }
qed

lemma cs_fsm_store:
  assumes "cs_start t (length bs)" "q < length (css (hs t))" "2 * q + 2 \<le> length bs"
    and "k = 2 * q \<or> k = 2 * q + 1"
    and "X = (cs_at t bs k)\<lparr>hs := (hs (cs_at t bs k))\<lparr>css := cs_css (css (hs t)) bs (2 * q + 2)\<rparr>\<rparr>"
    and "st_CS (cs_at t bs k) c = cs_store X rest" and "length rest < length c"
  shows "cs_suite bs q = TTLS_FALLBACK_SCSV_VALUE \<and> minor t < max_minor_ver (conf t) \<Longrightarrow>
           \<exists>Y. ch_fsm TTLS_CH_HS_CS (cs_at t bs k) c = Returned TTLS_ERR_BAD_HS_CLIENT_HELLO Y \<and>
               alerts Y = alerts t @ [(TTLS_ALERT_LEVEL_FATAL, TTLS_ALERT_MSG_INAPROPRIATE_FALLBACK)]"
    and "\<not> (cs_suite bs q = TTLS_FALLBACK_SCSV_VALUE \<and> minor t < max_minor_ver (conf t)) \<Longrightarrow>
           ch_fsm TTLS_CH_HS_CS (cs_at t bs k) c =
             (if rest = [] then Returned T_POSTPONE (cs_at t bs (2 * q + 2))
              else ch_fsm (substate (cs_at t bs (2 * q + 2))) (cs_at t bs (2 * q + 2)) rest)"
proof -
  {
    assume "cs_suite bs q = TTLS_FALLBACK_SCSV_VALUE \<and> minor t < max_minor_ver (conf t)"
    then obtain Y where "cs_store X rest = Return TTLS_ERR_BAD_HS_CLIENT_HELLO Y"
        "alerts Y = alerts t @ [(TTLS_ALERT_LEVEL_FATAL, TTLS_ALERT_MSG_INAPROPRIATE_FALLBACK)]"
      using cs_store_step(1) [OF assms(1-5)] by blast
    then show "\<exists>Y. ch_fsm TTLS_CH_HS_CS (cs_at t bs k) c = Returned TTLS_ERR_BAD_HS_CLIENT_HELLO Y \<and>
               alerts Y = alerts t @ [(TTLS_ALERT_LEVEL_FATAL, TTLS_ALERT_MSG_INAPROPRIATE_FALLBACK)]"
      by (simp add: ch_fsm.simps [of TTLS_CH_HS_CS _ c] assms(6))
  }
  {
    assume "\<not> (cs_suite bs q = TTLS_FALLBACK_SCSV_VALUE \<and> minor t < max_minor_ver (conf t))"
    then obtain Y where Y: "cs_store X rest = Move (substate (cs_at t bs (2 * q + 2))) Y rest"
        "Y\<lparr>substate := substate (cs_at t bs (2 * q + 2)), rlen := 0\<rparr> = cs_at t bs (2 * q + 2)"
      using cs_store_step(2) [OF assms(1-5)] by blast
    have "2 * q + 2 \<le> sizeof_css t"
      using assms(2) by (simp add: sizeof_css_def)
    then have "substate (cs_at t bs (2 * q + 2)) = TTLS_CH_HS_COMPN \<or>
               substate (cs_at t bs (2 * q + 2)) = TTLS_CH_HS_CS"
      by (simp add: cs_at_def)
    then have "step_measure (substate (cs_at t bs (2 * q + 2))) rest < step_measure TTLS_CH_HS_CS c"
      using assms(7) by (auto simp: step_measure_def)
    then show "ch_fsm TTLS_CH_HS_CS (cs_at t bs k) c =
             (if rest = [] then Returned T_POSTPONE (cs_at t bs (2 * q + 2))
              else ch_fsm (substate (cs_at t bs (2 * q + 2))) (cs_at t bs (2 * q + 2)) rest)"
      using Y by (simp add: ch_fsm.simps [of TTLS_CH_HS_CS _ c] assms(6) Let_def)
  }
qed

text \<open>A chunk holds both bytes of a suite.\<close>

lemma cs_body_pair:
  assumes "cs_start t (length bs)" "2 * q < sizeof_css t" "Suc (2 * q) < length bs"
  shows "st_CS (cs_at t bs (2 * q)) (bs ! (2 * q) # bs ! Suc (2 * q) # rest) =
           cs_store ((cs_at t bs (2 * q))\<lparr>hs := (hs (cs_at t bs (2 * q)))
                        \<lparr>css := cs_css (css (hs t)) bs (2 * q + 2)\<rparr>\<rparr>) rest"
proof -
  let ?a = "cs_at t bs (2 * q)"
  have sz: "sizeof_css ?a = sizeof_css t"
    using assms(3) by (simp add: cs_at_sizeof)
  have st: "rlen ?a = 0" "cs_cur_len (hs ?a) = 2 * q"
      "css (hs ?a) = cs_css (css (hs t)) bs (2 * q)"
    using assms(2) by (simp_all add: cs_at_def)
  have "(cs_css (css (hs t)) bs (2 * q))[2 * q div 2 := cs_suite bs (2 * q div 2)]
        = cs_css (css (hs t)) bs (Suc (Suc (2 * q)))"
    using assms(2,3) by (intro cs_css_pair) (simp_all add: sizeof_css_def)
  then have "css_set ?a (push_bit 8 (ucast (bs ! (2 * q))) + ucast (bs ! Suc (2 * q)))
        = ?a\<lparr>hs := (hs ?a)\<lparr>css := cs_css (css (hs t)) bs (2 * q + 2)\<rparr>\<rparr>"
    by (simp add: css_set_def st cs_suite_def)
  then show ?thesis
    using assms(2) by (simp add: st_CS_def st sz)
qed

text \<open>A chunk starts with the second byte of a suite.\<close>

lemma cs_body_low:
  assumes "cs_start t (length bs)" "Suc (2 * q) < sizeof_css t" "Suc (2 * q) < length bs"
  shows "st_CS (cs_at t bs (Suc (2 * q))) (bs ! Suc (2 * q) # rest) =
           cs_store ((cs_at t bs (Suc (2 * q)))\<lparr>hs := (hs (cs_at t bs (Suc (2 * q))))
                        \<lparr>css := cs_css (css (hs t)) bs (2 * q + 2)\<rparr>\<rparr>) rest"
proof -
  let ?a = "cs_at t bs (Suc (2 * q))"
  have sz: "sizeof_css ?a = sizeof_css t"
    using assms(3) by (simp add: cs_at_sizeof)
  have st: "rlen ?a = 1" "cs_cur_len (hs ?a) = 2 * q"
      "css (hs ?a) = cs_css (css (hs t)) bs (Suc (2 * q))"
    using assms(2) by (simp_all add: cs_at_def)
  have lt: "2 * q < sizeof_css t"
    using assms(2) by simp
  have "(cs_css (css (hs t)) bs (Suc (2 * q)))
          [Suc (2 * q) div 2 := cs_css (css (hs t)) bs (Suc (2 * q)) ! (Suc (2 * q) div 2)
                                  + ucast (bs ! Suc (2 * q))]
        = cs_css (css (hs t)) bs (Suc (Suc (2 * q)))"
    using assms(2,3) by (intro cs_css_low) (simp_all add: sizeof_css_def)
  then have "css_set ?a (css (hs ?a) ! (cs_cur_len (hs ?a) div 2) + ucast (bs ! Suc (2 * q)))
        = ?a\<lparr>hs := (hs ?a)\<lparr>css := cs_css (css (hs t)) bs (2 * q + 2)\<rparr>\<rparr>"
    by (simp add: css_set_def st)
  then show ?thesis
    using lt by (simp add: st_CS_def st sz)
qed

text \<open>The bytes behind the array are skipped, as many as the chunk has.\<close>

lemma ch_fsm_outside: "ch_body st = None \<Longrightarrow> ch_fsm st tls bs = Continues st tls bs"
  by (simp add: ch_fsm.simps [of st])

lemma cs_skip_delta:
  assumes "k < n" "n < 65536" "c \<noteq> []"
  shows "nat (min (int (length c)) (int n - int k) mod 65536) = min (length c) (n - k)"
proof -
  have e: "int n - int k = int (n - k)"
    using assms(1) by simp
  have "min (int (length c)) (int n - int k) = int (min (length c) (n - k))"
    unfolding e by (simp add: of_nat_min)
  moreover have "min (length c) (n - k) \<le> n - k"
    by simp
  then have "min (length c) (n - k) < 65536"
    using assms(2) by linarith
  ultimately show ?thesis
    by simp
qed

lemma st_CS_SKIP_delta:
  assumes "nat (min (int (length c))
                  (int (cs_total_len (hs x)) - int (cs_cur_len (hs x))) mod 65536) = d"
  shows "st_CS_SKIP x c =
           (if cs_cur_len (hs x) + d = cs_total_len (hs x)
            then Move TTLS_CH_HS_COMPN
                   (x\<lparr>hs := (hs x)\<lparr>cs_cur_len := cs_cur_len (hs x) + d,
                                    cs_total_len := sizeof_css x\<rparr>,
                      hslen := hslen x - of_nat d\<rparr>) (drop d c)
            else Move TTLS_CH_HS_CS_SKIP
                   (x\<lparr>hs := (hs x)\<lparr>cs_cur_len := cs_cur_len (hs x) + d\<rparr>,
                      hslen := hslen x - of_nat d\<rparr>) (drop d c))"
proof -
  have "st_CS_SKIP x c =
          (let tls1 = x\<lparr>hs := (hs x)\<lparr>cs_cur_len := cs_cur_len (hs x) + d\<rparr>,
                        hslen := hslen x - of_nat d\<rparr>
           in if cs_cur_len (hs tls1) = cs_total_len (hs x)
              then Move TTLS_CH_HS_COMPN (tls1\<lparr>hs := (hs tls1)\<lparr>cs_total_len := sizeof_css tls1\<rparr>\<rparr>)
                     (drop d c)
              else Move TTLS_CH_HS_CS_SKIP tls1 (drop d c))"
    by (simp only: st_CS_SKIP_def Let_def assms)
  then show ?thesis
    by (simp add: Let_def sizeof_css_def)
qed

lemma cs_step_skip:
  assumes "cs_start t (length bs)" "sizeof_css t \<le> k" "k < length bs" "c \<noteq> []"
  shows "ch_fsm (substate (cs_at t bs k)) (cs_at t bs k) c =
           (if length c \<le> length bs - k then Returned T_POSTPONE (cs_at t bs (k + length c))
            else Continues TTLS_CH_HS_COMPN (cs_at t bs (length bs)) (drop (length bs - k) c))"
proof -
  let ?a = "cs_at t bs k"
  define sk where "sk = ?a\<lparr>substate := TTLS_CH_HS_CS_SKIP, rlen := 0\<rparr>"
  define d where "d = min (length c) (length bs - k)"
  have L: "length bs < 65536"
    using assms(1) by (simp add: cs_start_def)
  have sz: "sizeof_css ?a = sizeof_css t"
    using assms(3) by (simp add: cs_at_sizeof)
  have a: "cs_cur_len (hs ?a) = k" "rlen ?a = 0" "hslen ?a = hslen t - of_nat k"
      "cs_total_len (hs ?a) = length bs"
    using assms(2,3) by (simp_all add: cs_at_skip) (simp add: cs_at_def)
  have d: "0 < d" "d \<le> length c" "k + d \<le> length bs"
    using assms(3,4) by (simp_all add: d_def)
  have enter: "ch_fsm (substate ?a) ?a c = ch_fsm TTLS_CH_HS_CS_SKIP sk c"
  proof (cases "k = sizeof_css t")
    case True
    then have "substate ?a = TTLS_CH_HS_CS"
      using assms(3) by (simp add: cs_at_def)
    moreover have "st_CS ?a c = Move TTLS_CH_HS_CS_SKIP ?a c"
      using True a sz by (simp add: st_CS_def)
    ultimately show ?thesis
      using assms(4) by (simp add: ch_fsm.simps [of TTLS_CH_HS_CS _ c] sk_def step_measure_def)
  next
    case False
    then have "substate ?a = TTLS_CH_HS_CS_SKIP"
      using assms(2,3) by (simp add: cs_at_def)
    moreover from this have "sk = ?a"
      unfolding sk_def by (intro ctx_eqI) (simp_all add: a)
    ultimately show ?thesis
      by simp
  qed
  have del: "nat (min (int (length c)) (int (length bs) - int k) mod 65536) = d"
    unfolding d_def using assms(3) L assms(4) by (rule cs_skip_delta)
  have sk: "cs_total_len (hs sk) = length bs" "cs_cur_len (hs sk) = k"
      "hslen sk = hslen t - of_nat k" "sizeof_css sk = sizeof_css t"
    using sz by (simp_all add: sk_def a sizeof_css_def)
  have del': "nat (min (int (length c))
                     (int (cs_total_len (hs sk)) - int (cs_cur_len (hs sk))) mod 65536) = d"
    unfolding sk(1,2) by (rule del)
  define t1 where "t1 = sk\<lparr>hs := (hs sk)\<lparr>cs_cur_len := k + d\<rparr>, hslen := hslen sk - of_nat d\<rparr>"
  have body: "st_CS_SKIP sk c =
      (if k + d = length bs
       then Move TTLS_CH_HS_COMPN (t1\<lparr>hs := (hs t1)\<lparr>cs_total_len := sizeof_css t\<rparr>\<rparr>) (drop d c)
       else Move TTLS_CH_HS_CS_SKIP t1 (drop d c))"
    unfolding st_CS_SKIP_delta [OF del'] sk t1_def by simp
  show ?thesis
  proof (cases "k + d = length bs")
    case True
    then have dd: "d = length bs - k"
      by simp
    have "(t1\<lparr>hs := (hs t1)\<lparr>cs_total_len := sizeof_css t\<rparr>\<rparr>)
            \<lparr>substate := TTLS_CH_HS_COMPN, rlen := 0\<rparr> = cs_at t bs (length bs)"
    proof (rule ctx_eqI)
      show "hslen ((t1\<lparr>hs := (hs t1)\<lparr>cs_total_len := sizeof_css t\<rparr>\<rparr>)
                \<lparr>substate := TTLS_CH_HS_COMPN, rlen := 0\<rparr>) = hslen (cs_at t bs (length bs))"
        using assms(2,3) True by (simp add: t1_def sk_def a cs_at_skip dd)
      show "cs_total_len (hs ((t1\<lparr>hs := (hs t1)\<lparr>cs_total_len := sizeof_css t\<rparr>\<rparr>)
                \<lparr>substate := TTLS_CH_HS_COMPN, rlen := 0\<rparr>))
            = cs_total_len (hs (cs_at t bs (length bs)))"
        using assms(2,3) sz by (simp add: t1_def sk_def cs_at_def sizeof_css_def)
    qed (use assms(2,3) True in \<open>simp_all add: t1_def sk_def a cs_at_same cs_at_skip cs_at_def\<close>)
    then have "ch_fsm TTLS_CH_HS_CS_SKIP sk c =
                 (if drop d c = [] then Returned T_POSTPONE (cs_at t bs (length bs))
                  else ch_fsm TTLS_CH_HS_COMPN (cs_at t bs (length bs)) (drop d c))"
      using True
      by (simp add: ch_fsm.simps [of TTLS_CH_HS_CS_SKIP _ c] body Let_def step_measure_def)
    then show ?thesis
      using enter True d assms(3) by (auto simp: ch_fsm_outside dd)
  next
    case False
    then have dc: "d = length c" "length c < length bs - k"
      using d assms(3) by (auto simp: d_def min_def split: if_splits)
    have kc: "sizeof_css t < k + length c" "sizeof_css t \<le> k + length c"
        "\<not> k + length c \<le> sizeof_css t" "k + length c < length bs" "k + length c \<noteq> length bs"
      using assms(2,4) dc(2) by (cases c; simp)+
    have "t1\<lparr>substate := TTLS_CH_HS_CS_SKIP, rlen := 0\<rparr> = cs_at t bs (k + length c)"
    proof (rule ctx_eqI)
      show "hslen (t1\<lparr>substate := TTLS_CH_HS_CS_SKIP, rlen := 0\<rparr>) = hslen (cs_at t bs (k + length c))"
        using kc(2) by (simp add: t1_def sk_def a cs_at_skip dc)
    qed (use assms(2,3) kc dc in \<open>simp_all add: t1_def sk_def a cs_at_same cs_at_skip cs_at_def\<close>)
    then have "ch_fsm TTLS_CH_HS_CS_SKIP sk c = Returned T_POSTPONE (cs_at t bs (k + length c))"
      using False dc
      by (simp add: ch_fsm.simps [of TTLS_CH_HS_CS_SKIP _ c] body Let_def)
    then show ?thesis
      using enter dc by simp
  qed
qed

subsection \<open>One chunk\<close>

text \<open>
  The first step on a chunk \<open>c\<close> that starts \<open>k\<close> bytes into the list, while the suites
  still go into the array: either the chunk ends in the middle of a suite, or the suite
  is completed and checked.
\<close>

lemma cs_chunk_step:
  assumes "cs_start t (length bs)" "k < sizeof_css t" "k < length bs" "c \<noteq> []"
    and "\<forall>i<length c. k + i < length bs \<longrightarrow> c ! i = bs ! (k + i)"
  shows "k + length c < 2 * (k div 2) + 2 \<Longrightarrow>
           ch_fsm TTLS_CH_HS_CS (cs_at t bs k) c = Returned T_POSTPONE (cs_at t bs (k + length c))"
    and "2 * (k div 2) + 2 \<le> k + length c \<Longrightarrow>
         cs_suite bs (k div 2) = TTLS_FALLBACK_SCSV_VALUE \<and> minor t < max_minor_ver (conf t) \<Longrightarrow>
           \<exists>Y. ch_fsm TTLS_CH_HS_CS (cs_at t bs k) c = Returned TTLS_ERR_BAD_HS_CLIENT_HELLO Y \<and>
               alerts Y = alerts t @ [(TTLS_ALERT_LEVEL_FATAL, TTLS_ALERT_MSG_INAPROPRIATE_FALLBACK)]"
    and "2 * (k div 2) + 2 \<le> k + length c \<Longrightarrow>
         \<not> (cs_suite bs (k div 2) = TTLS_FALLBACK_SCSV_VALUE \<and> minor t < max_minor_ver (conf t)) \<Longrightarrow>
           ch_fsm TTLS_CH_HS_CS (cs_at t bs k) c =
             (if drop (2 * (k div 2) + 2 - k) c = []
              then Returned T_POSTPONE (cs_at t bs (2 * (k div 2) + 2))
              else ch_fsm (substate (cs_at t bs (2 * (k div 2) + 2)))
                     (cs_at t bs (2 * (k div 2) + 2)) (drop (2 * (k div 2) + 2 - k) c))"
proof -
  define q where "q = k div 2"
  have evL: "even (length bs)"
    using assms(1) by (simp add: cs_start_def)
  have qM: "q < length (css (hs t))"
    using assms(2) by (simp add: q_def sizeof_css_def)
  obtain b rest where c: "c = b # rest"
    using assms(4) by (cases c) auto
  have b: "b = bs ! k"
    using assms(5) [rule_format, of 0] assms(3) by (simp add: c)
  show "k + length c < 2 * (k div 2) + 2 \<Longrightarrow>
           ch_fsm TTLS_CH_HS_CS (cs_at t bs k) c = Returned T_POSTPONE (cs_at t bs (k + length c))"
  proof -
    assume "k + length c < 2 * (k div 2) + 2"
    then have h: "k + length rest < Suc (2 * (k div 2))"
      by (simp add: c)
    have "2 * (k div 2) \<le> k"
      by simp
    with h have "length rest = 0" and e: "2 * (k div 2) = k"
      by linarith+
    then have "rest = []"
      by simp
    moreover have "even k"
      using e by (metis dvd_triv_left)
    ultimately show ?thesis
      using cs_step_high [OF assms(1) _ assms(2,3)] by (simp add: c b)
  qed
  have both: "2 * (k div 2) + 2 \<le> k + length c \<Longrightarrow>
    (cs_suite bs q = TTLS_FALLBACK_SCSV_VALUE \<and> minor t < max_minor_ver (conf t) \<longrightarrow>
       (\<exists>Y. ch_fsm TTLS_CH_HS_CS (cs_at t bs k) c = Returned TTLS_ERR_BAD_HS_CLIENT_HELLO Y \<and>
            alerts Y = alerts t @ [(TTLS_ALERT_LEVEL_FATAL, TTLS_ALERT_MSG_INAPROPRIATE_FALLBACK)])) \<and>
    (\<not> (cs_suite bs q = TTLS_FALLBACK_SCSV_VALUE \<and> minor t < max_minor_ver (conf t)) \<longrightarrow>
       ch_fsm TTLS_CH_HS_CS (cs_at t bs k) c =
         (if drop (2 * q + 2 - k) c = [] then Returned T_POSTPONE (cs_at t bs (2 * q + 2))
          else ch_fsm (substate (cs_at t bs (2 * q + 2))) (cs_at t bs (2 * q + 2))
                 (drop (2 * q + 2 - k) c)))"
  proof (cases "even k")
    case True
    assume le: "2 * (k div 2) + 2 \<le> k + length c"
    have k: "k = 2 * q"
      using True by (simp add: q_def)
    have k1: "Suc (2 * q) < length bs"
      using assms(3) evL unfolding k by (metis Suc_lessI even_Suc even_mult_iff even_numeral)
    obtain b1 rest1 where r: "rest = b1 # rest1"
      using le unfolding k c by (cases rest) simp_all
    have b1: "b1 = bs ! Suc (2 * q)"
      using assms(5) [rule_format, of 1] k1 unfolding k c r by simp
    have body: "st_CS (cs_at t bs (2 * q)) c =
           cs_store ((cs_at t bs (2 * q))\<lparr>hs := (hs (cs_at t bs (2 * q)))
                        \<lparr>css := cs_css (css (hs t)) bs (2 * q + 2)\<rparr>\<rparr>) rest1"
      unfolding c r b b1 k using assms(1) assms(2) [unfolded k] k1 by (rule cs_body_pair)
    have dr: "drop (2 * q + 2 - k) c = rest1"
      by (simp add: k c r)
    have q2: "2 * q + 2 \<le> length bs"
      using k1 by simp
    show ?thesis
      unfolding dr
      using cs_fsm_store [OF assms(1) qM q2 _ refl body]
      by (simp add: k c r)
  next
    case False
    assume le: "2 * (k div 2) + 2 \<le> k + length c"
    have k: "k = Suc (2 * q)"
      using False by (simp add: q_def)
    have body: "st_CS (cs_at t bs (Suc (2 * q))) c =
           cs_store ((cs_at t bs (Suc (2 * q)))\<lparr>hs := (hs (cs_at t bs (Suc (2 * q))))
                        \<lparr>css := cs_css (css (hs t)) bs (2 * q + 2)\<rparr>\<rparr>) rest"
      unfolding c b k using assms(1) assms(2,3) [unfolded k] by (rule cs_body_low)
    have dr: "drop (2 * q + 2 - k) c = rest"
      by (simp add: k c)
    have q2: "2 * q + 2 \<le> length bs"
      using assms(3) k by simp
    show ?thesis
      unfolding dr
      using cs_fsm_store [OF assms(1) qM q2 _ refl body]
      by (simp add: k c)
  qed
  show "2 * (k div 2) + 2 \<le> k + length c \<Longrightarrow>
         cs_suite bs (k div 2) = TTLS_FALLBACK_SCSV_VALUE \<and> minor t < max_minor_ver (conf t) \<Longrightarrow>
           \<exists>Y. ch_fsm TTLS_CH_HS_CS (cs_at t bs k) c = Returned TTLS_ERR_BAD_HS_CLIENT_HELLO Y \<and>
               alerts Y = alerts t @ [(TTLS_ALERT_LEVEL_FATAL, TTLS_ALERT_MSG_INAPROPRIATE_FALLBACK)]"
    using both unfolding q_def by blast
  show "2 * (k div 2) + 2 \<le> k + length c \<Longrightarrow>
         \<not> (cs_suite bs (k div 2) = TTLS_FALLBACK_SCSV_VALUE \<and> minor t < max_minor_ver (conf t)) \<Longrightarrow>
           ch_fsm TTLS_CH_HS_CS (cs_at t bs k) c =
             (if drop (2 * (k div 2) + 2 - k) c = []
              then Returned T_POSTPONE (cs_at t bs (2 * (k div 2) + 2))
              else ch_fsm (substate (cs_at t bs (2 * (k div 2) + 2)))
                     (cs_at t bs (2 * (k div 2) + 2)) (drop (2 * (k div 2) + 2 - k) c))"
    using both unfolding q_def by blast
qed

text \<open>A chunk in which no suite is refused.\<close>

lemma cs_even_bound:
  assumes "even (n::nat)" "k < n"
  shows "2 * (k div 2) + 2 \<le> n"
proof -
  obtain m where "n = 2 * m"
    using assms(1) by (auto elim: evenE)
  then have "k div 2 < m"
    using assms(2) by (simp add: div_less_iff_less_mult mult.commute)
  then show ?thesis
    using \<open>n = 2 * m\<close> by simp
qed

lemma cs_chunk_ok:
  assumes "cs_start t (length bs)"
  shows "k < length bs \<Longrightarrow> c \<noteq> [] \<Longrightarrow>
    \<forall>i<length c. k + i < length bs \<longrightarrow> c ! i = bs ! (k + i) \<Longrightarrow>
    \<forall>q. q < length (css (hs t)) \<and> k \<le> 2 * q + 1 \<and> 2 * q + 2 \<le> k + length c \<and>
        2 * q + 2 \<le> length bs \<longrightarrow> \<not> cs_refused t bs q \<Longrightarrow>
    ch_fsm (substate (cs_at t bs k)) (cs_at t bs k) c =
      (if k + length c \<le> length bs then Returned T_POSTPONE (cs_at t bs (k + length c))
       else Continues TTLS_CH_HS_COMPN (cs_at t bs (length bs)) (drop (length bs - k) c))"
proof (induction "length c" arbitrary: c k rule: less_induct)
  case less
  note kL = less.prems(1) and cne = less.prems(2) and match = less.prems(3) and nr = less.prems(4)
  have evL: "even (length bs)"
    using assms by (simp add: cs_start_def)
  show ?case
  proof (cases "sizeof_css t \<le> k")
    case True
    have "(length c \<le> length bs - k) = (k + length c \<le> length bs)"
      using kL by linarith
    then show ?thesis
      using cs_step_skip [OF assms True kL cne] by simp
  next
    case False
    then have kM: "k < sizeof_css t"
      by simp
    define q where "q = k div 2"
    define k' where "k' = 2 * q + 2"
    have st: "substate (cs_at t bs k) = TTLS_CH_HS_CS"
      using kM kL by (simp add: cs_at_def)
    have k'L: "k' \<le> length bs"
      unfolding k'_def q_def using evL kL by (rule cs_even_bound)
    have kk': "k < k'" "k' \<le> k + 2"
      unfolding k'_def q_def by linarith+
    note step = cs_chunk_step [OF assms kM kL cne match, folded q_def, folded k'_def]
    show ?thesis
    proof (cases "k + length c < k'")
      case True
      then have "k + length c \<le> length bs"
        using k'L by simp
      then show ?thesis
        using step(1) [OF True] st by simp
    next
      case False
      then have le: "k' \<le> k + length c"
        by simp
      have qM: "q < length (css (hs t))"
        using kM by (simp add: q_def sizeof_css_def)
      have "\<not> cs_refused t bs q"
        using nr qM le k'L kk' by (auto simp: k'_def q_def)
      then have run: "ch_fsm TTLS_CH_HS_CS (cs_at t bs k) c =
          (if drop (k' - k) c = [] then Returned T_POSTPONE (cs_at t bs k')
           else ch_fsm (substate (cs_at t bs k')) (cs_at t bs k') (drop (k' - k) c))"
        using step(3) [OF le] by (simp add: cs_refused_def)
      define r where "r = drop (k' - k) c"
      show ?thesis
      proof (cases "r = []")
        case True
        then have "k + length c = k'"
          using le kk' by (simp add: r_def)
        then show ?thesis
          using run True k'L st by (simp add: r_def)
      next
        case rne: False
        then have gt: "k' < k + length c"
          by (simp add: r_def)
        show ?thesis
        proof (cases "k' = length bs")
          case True
          then have "substate (cs_at t bs k') = TTLS_CH_HS_COMPN"
            by (simp add: cs_at_def)
          then have "ch_fsm TTLS_CH_HS_CS (cs_at t bs k) c
                     = Continues TTLS_CH_HS_COMPN (cs_at t bs k') r"
            using run rne by (simp add: r_def ch_fsm_outside)
          then show ?thesis
            using True gt st by (simp add: r_def)
        next
          case False
          then have k'lt: "k' < length bs"
            using k'L by simp
          have "0 < length c"
            using cne by simp
          moreover have "length r = length c - (k' - k)"
            by (simp add: r_def)
          ultimately have lr: "length r < length c"
            using kk'(1) by linarith
          have mr: "\<forall>i<length r. k' + i < length bs \<longrightarrow> r ! i = bs ! (k' + i)"
          proof (intro allI impI)
            fix i assume i: "i < length r" "k' + i < length bs"
            then have "r ! i = c ! (k' - k + i)"
              by (simp add: r_def)
            also have "\<dots> = bs ! (k + (k' - k + i))"
              using i kk' match [rule_format, of "k' - k + i"] by (simp add: r_def)
            finally show "r ! i = bs ! (k' + i)"
              using kk' by simp
          qed
          have lk: "k' + length r = k + length c"
            using le kk' by (simp add: r_def)
          have nrr: "\<forall>q. q < length (css (hs t)) \<and> k' \<le> 2 * q + 1 \<and> 2 * q + 2 \<le> k' + length r \<and>
              2 * q + 2 \<le> length bs \<longrightarrow> \<not> cs_refused t bs q"
            using nr kk' unfolding lk by auto
          have "ch_fsm (substate (cs_at t bs k')) (cs_at t bs k') r =
              (if k' + length r \<le> length bs then Returned T_POSTPONE (cs_at t bs (k' + length r))
               else Continues TTLS_CH_HS_COMPN (cs_at t bs (length bs)) (drop (length bs - k') r))"
            using lr k'lt rne mr nrr by (rule less.hyps)
          moreover have "drop (length bs - k') r = drop (length bs - k) c"
            using kk' k'L by (simp add: r_def)
          ultimately show ?thesis
            using run rne st unfolding lk by (simp add: r_def)
        qed
      qed
    qed
  qed
qed

text \<open>A chunk that completes the first refused suite.\<close>

lemma cs_chunk_refused:
  assumes "cs_start t (length bs)" "q0 < length (css (hs t))" "2 * q0 + 2 \<le> length bs"
    and "cs_refused t bs q0" "\<forall>q<q0. \<not> cs_refused t bs q"
  shows "k \<le> 2 * q0 + 1 \<Longrightarrow> 2 * q0 + 2 \<le> k + length c \<Longrightarrow>
    \<forall>i<length c. k + i < length bs \<longrightarrow> c ! i = bs ! (k + i) \<Longrightarrow>
    \<exists>Y. ch_fsm (substate (cs_at t bs k)) (cs_at t bs k) c = Returned TTLS_ERR_BAD_HS_CLIENT_HELLO Y \<and>
        alerts Y = alerts t @ [(TTLS_ALERT_LEVEL_FATAL, TTLS_ALERT_MSG_INAPROPRIATE_FALLBACK)]"
proof (induction "length c" arbitrary: c k rule: less_induct)
  case less
  note k0 = less.prems(1) and le0 = less.prems(2) and match = less.prems(3)
  have kM: "k < sizeof_css t"
    using k0 assms(2) by (simp add: sizeof_css_def)
  have kL: "k < length bs"
    using k0 assms(3) by simp
  have cne: "c \<noteq> []"
    using k0 le0 by auto
  define q where "q = k div 2"
  define k' where "k' = 2 * q + 2"
  have st: "substate (cs_at t bs k) = TTLS_CH_HS_CS"
    using kM kL by (simp add: cs_at_def)
  have qq: "q \<le> q0"
    unfolding q_def using k0 by linarith
  have kk': "k < k'" "k' \<le> k + 2"
    unfolding k'_def q_def by linarith+
  have le: "k' \<le> k + length c"
    using le0 qq by (simp add: k'_def)
  note step = cs_chunk_step [OF assms(1) kM kL cne match, folded q_def, folded k'_def]
  show ?case
  proof (cases "q = q0")
    case True
    then show ?thesis
      using step(2) [OF le] assms(4) st by (simp add: cs_refused_def)
  next
    case False
    then have ql: "q < q0"
      using qq by simp
    then have "\<not> cs_refused t bs q"
      using assms(5) by simp
    then have run: "ch_fsm TTLS_CH_HS_CS (cs_at t bs k) c =
        (if drop (k' - k) c = [] then Returned T_POSTPONE (cs_at t bs k')
         else ch_fsm (substate (cs_at t bs k')) (cs_at t bs k') (drop (k' - k) c))"
      using step(3) [OF le] by (simp add: cs_refused_def)
    define r where "r = drop (k' - k) c"
    have k'0: "k' \<le> 2 * q0 + 1"
      using ql by (simp add: k'_def)
    have lk: "k' + length r = k + length c"
      using le kk' by (simp add: r_def)
    have rne: "r \<noteq> []"
      using lk k'0 le0 by auto
    have "0 < length c"
      using cne by simp
    moreover have "length r = length c - (k' - k)"
      by (simp add: r_def)
    ultimately have lr: "length r < length c"
      using kk'(1) by linarith
    have mr: "\<forall>i<length r. k' + i < length bs \<longrightarrow> r ! i = bs ! (k' + i)"
    proof (intro allI impI)
      fix i assume i: "i < length r" "k' + i < length bs"
      then have "r ! i = c ! (k' - k + i)"
        by (simp add: r_def)
      also have "\<dots> = bs ! (k + (k' - k + i))"
        using i kk' match [rule_format, of "k' - k + i"] by (simp add: r_def)
      finally show "r ! i = bs ! (k' + i)"
        using kk' by simp
    qed
    have le': "2 * q0 + 2 \<le> k' + length r"
      using le0 lk by simp
    have "\<exists>Y. ch_fsm (substate (cs_at t bs k')) (cs_at t bs k') r
                = Returned TTLS_ERR_BAD_HS_CLIENT_HELLO Y \<and>
              alerts Y = alerts t @ [(TTLS_ALERT_LEVEL_FATAL, TTLS_ALERT_MSG_INAPROPRIATE_FALLBACK)]"
      using lr k'0 le' mr by (rule less.hyps)
    then show ?thesis
      using run rne st by (simp add: r_def)
  qed
qed

subsection \<open>The chunks of a message\<close>

lemma cs_parse_at:
  assumes "cs_start t (length bs)"
  shows "ttls_parse_client_hello (cs_at t bs k) c = ch_fsm (substate (cs_at t bs k)) (cs_at t bs k) c"
  using assms by (simp add: ttls_parse_client_hello_def cs_at_same cs_start_def)

lemma cs_not_refused:
  assumes "\<not> cs_fallback_refused t bs" "q < length (css (hs t))" "2 * q + 2 \<le> length bs"
  shows "\<not> cs_refused t bs q"
proof
  assume r: "cs_refused t bs q"
  have ql: "q < length bs div 2"
    using assms(3) by linarith
  then have "take (length (css (hs t))) (cs_suites bs) ! q = cs_suite bs q"
    using assms(2) by (simp add: cs_suites_nth)
  moreover have "q < length (take (length (css (hs t))) (cs_suites bs))"
    using assms(2) ql by (simp add: cs_suites_length)
  ultimately have "cs_suite bs q \<in> set (take (length (css (hs t))) (cs_suites bs))"
    by (metis nth_mem)
  then show False
    using assms(1) r by (simp add: cs_fallback_refused_def cs_refused_def)
qed

text \<open>
  Without a refused suite the chunks are consumed up to the end of the list; the call
  that reads the last byte of the list leaves the rest of its chunk to the next state.
\<close>

lemma cs_feed_ok:
  assumes "cs_start t (length bs)" "\<not> cs_fallback_refused t bs"
  shows "k \<le> length bs \<Longrightarrow> [] \<notin> set chunks \<Longrightarrow>
    \<forall>i<length (concat chunks). k + i < length bs \<longrightarrow> concat chunks ! i = bs ! (k + i) \<Longrightarrow>
    (k + length (concat chunks) \<le> length bs \<longrightarrow>
       ch_feed (cs_at t bs k) chunks = Returned T_POSTPONE (cs_at t bs (k + length (concat chunks)))) \<and>
    (length bs < k + length (concat chunks) \<longrightarrow>
       (\<exists>rest later. rest \<noteq> [] \<and> drop (length bs - k) (concat chunks) = rest @ later \<and>
          ch_feed (cs_at t bs k) chunks = Continues TTLS_CH_HS_COMPN (cs_at t bs (length bs)) rest))"
proof (induction chunks arbitrary: k)
  case Nil
  then show ?case by simp
next
  case (Cons c cs)
  have cne: "c \<noteq> []" and csn: "[] \<notin> set cs"
    using Cons.prems(2) by auto
  note match = Cons.prems(3)
  show ?case
  proof (cases "k = length bs")
    case True
    have "substate (cs_at t bs k) = TTLS_CH_HS_COMPN"
      using True by (simp add: cs_at_def)
    then have "ch_feed (cs_at t bs k) (c # cs) = Continues TTLS_CH_HS_COMPN (cs_at t bs k) c"
      by (simp add: cs_parse_at [OF assms(1)] ch_fsm_outside)
    then show ?thesis
      using True cne by auto
  next
    case False
    then have kL: "k < length bs"
      using Cons.prems(1) by simp
    have mc: "\<forall>i<length c. k + i < length bs \<longrightarrow> c ! i = bs ! (k + i)"
    proof (intro allI impI)
      fix i assume "i < length c" "k + i < length bs"
      then show "c ! i = bs ! (k + i)"
        using match [rule_format, of i] by (simp add: nth_append)
    qed
    have nr: "\<forall>q. q < length (css (hs t)) \<and> k \<le> 2 * q + 1 \<and> 2 * q + 2 \<le> k + length c \<and>
        2 * q + 2 \<le> length bs \<longrightarrow> \<not> cs_refused t bs q"
      using cs_not_refused [OF assms(2)] by blast
    note run = cs_chunk_ok [OF assms(1) kL cne mc nr]
    show ?thesis
    proof (cases "k + length c \<le> length bs")
      case True
      have mcs: "\<forall>i<length (concat cs). k + length c + i < length bs \<longrightarrow>
                   concat cs ! i = bs ! (k + length c + i)"
      proof (intro allI impI)
        fix i assume "i < length (concat cs)" "k + length c + i < length bs"
        then show "concat cs ! i = bs ! (k + length c + i)"
          using match [rule_format, of "length c + i"] by (simp add: nth_append add.assoc)
      qed
      have feed: "ch_feed (cs_at t bs k) (c # cs) = ch_feed (cs_at t bs (k + length c)) cs"
        using run True by (simp add: cs_parse_at [OF assms(1)])
      have dr: "drop (length bs - k) (concat (c # cs)) = drop (length bs - (k + length c)) (concat cs)"
        using True by simp
      show ?thesis
        unfolding feed dr using Cons.IH [OF True csn mcs] by (simp add: add.assoc)
    next
      case False
      then have "ch_feed (cs_at t bs k) (c # cs)
                 = Continues TTLS_CH_HS_COMPN (cs_at t bs (length bs)) (drop (length bs - k) c)"
        using run by (simp add: cs_parse_at [OF assms(1)])
      moreover have "length bs - k < length c"
        using False kL by linarith
      then have "drop (length bs - k) c \<noteq> []"
        by simp
      moreover have "drop (length bs - k) (concat (c # cs)) = drop (length bs - k) c @ concat cs"
        using False by simp
      ultimately show ?thesis
        using False by auto
    qed
  qed
qed

text \<open>With a refused suite the call that completes the first one fails.\<close>

lemma cs_feed_refused:
  assumes "cs_start t (length bs)" "q0 < length (css (hs t))" "2 * q0 + 2 \<le> length bs"
    and "cs_refused t bs q0" "\<forall>q<q0. \<not> cs_refused t bs q"
  shows "k \<le> 2 * q0 + 1 \<Longrightarrow> 2 * q0 + 2 \<le> k + length (concat chunks) \<Longrightarrow> [] \<notin> set chunks \<Longrightarrow>
    \<forall>i<length (concat chunks). k + i < length bs \<longrightarrow> concat chunks ! i = bs ! (k + i) \<Longrightarrow>
    \<exists>Y. ch_feed (cs_at t bs k) chunks = Returned TTLS_ERR_BAD_HS_CLIENT_HELLO Y \<and>
        alerts Y = alerts t @ [(TTLS_ALERT_LEVEL_FATAL, TTLS_ALERT_MSG_INAPROPRIATE_FALLBACK)]"
proof (induction chunks arbitrary: k)
  case Nil
  then show ?case by simp
next
  case (Cons c cs)
  have cne: "c \<noteq> []" and csn: "[] \<notin> set cs"
    using Cons.prems(3) by auto
  note match = Cons.prems(4)
  have kL: "k < length bs"
    using Cons.prems(1) assms(3) by simp
  have mc: "\<forall>i<length c. k + i < length bs \<longrightarrow> c ! i = bs ! (k + i)"
  proof (intro allI impI)
    fix i assume "i < length c" "k + i < length bs"
    then show "c ! i = bs ! (k + i)"
      using match [rule_format, of i] by (simp add: nth_append)
  qed
  show ?case
  proof (cases "2 * q0 + 2 \<le> k + length c")
    case True
    obtain Y where "ch_fsm (substate (cs_at t bs k)) (cs_at t bs k) c
                      = Returned TTLS_ERR_BAD_HS_CLIENT_HELLO Y"
        "alerts Y = alerts t @ [(TTLS_ALERT_LEVEL_FATAL, TTLS_ALERT_MSG_INAPROPRIATE_FALLBACK)]"
      using cs_chunk_refused [OF assms Cons.prems(1) True mc] by blast
    then show ?thesis
      by (simp add: cs_parse_at [OF assms(1)])
  next
    case False
    then have k1: "k + length c \<le> 2 * q0 + 1"
      by simp
    then have kc: "k + length c \<le> length bs"
      using assms(3) by simp
    have nr: "\<forall>q. q < length (css (hs t)) \<and> k \<le> 2 * q + 1 \<and> 2 * q + 2 \<le> k + length c \<and>
        2 * q + 2 \<le> length bs \<longrightarrow> \<not> cs_refused t bs q"
      using assms(5) k1 by auto
    have feed: "ch_feed (cs_at t bs k) (c # cs) = ch_feed (cs_at t bs (k + length c)) cs"
      using cs_chunk_ok [OF assms(1) kL cne mc nr] kc by (simp add: cs_parse_at [OF assms(1)])
    have mcs: "\<forall>i<length (concat cs). k + length c + i < length bs \<longrightarrow>
                 concat cs ! i = bs ! (k + length c + i)"
    proof (intro allI impI)
      fix i assume "i < length (concat cs)" "k + length c + i < length bs"
      then show "concat cs ! i = bs ! (k + length c + i)"
        using match [rule_format, of "length c + i"] by (simp add: nth_append add.assoc)
    qed
    have l2: "2 * q0 + 2 \<le> k + length c + length (concat cs)"
      using Cons.prems(2) by (simp add: add.assoc)
    show ?thesis
      unfolding feed by (rule Cons.IH [OF k1 l2 csn mcs])
  qed
qed

subsection \<open>The list as a whole\<close>

lemma cs_first_refused:
  assumes "cs_fallback_refused t bs"
  shows "\<exists>q0. q0 < length (css (hs t)) \<and> 2 * q0 + 2 \<le> length bs \<and> cs_refused t bs q0 \<and>
           (\<forall>q<q0. \<not> cs_refused t bs q)"
proof -
  let ?P = "\<lambda>q. q < length (css (hs t)) \<and> 2 * q + 2 \<le> length bs \<and> cs_refused t bs q"
  obtain i where i: "i < length (take (length (css (hs t))) (cs_suites bs))"
      "take (length (css (hs t))) (cs_suites bs) ! i = TTLS_FALLBACK_SCSV_VALUE"
    using assms unfolding cs_fallback_refused_def in_set_conv_nth by blast
  then have il: "i < length (css (hs t))" "i < length bs div 2"
    by (simp_all add: cs_suites_length)
  then have "cs_suite bs i = TTLS_FALLBACK_SCSV_VALUE"
    using i(2) by (simp add: cs_suites_nth)
  moreover have "2 * i + 2 \<le> length bs"
    using il(2) by linarith
  ultimately have "?P i"
    using assms il(1) by (simp add: cs_refused_def cs_fallback_refused_def)
  then have "\<exists>q0. ?P q0 \<and> (\<forall>q<q0. \<not> ?P q)"
    using exists_least_iff [of ?P] by blast
  then obtain q0 where q0: "?P q0" "\<forall>q<q0. \<not> ?P q"
    by blast
  have "\<forall>q<q0. \<not> cs_refused t bs q"
  proof (intro allI impI)
    fix q assume "q < q0"
    then show "\<not> cs_refused t bs q"
      using q0 by (auto dest!: spec [of _ q])
  qed
  with q0(1) show ?thesis
    by blast
qed

lemma cs_stream:
  assumes "concat chunks = bs @ tail"
  shows "\<forall>i<length (concat chunks). 0 + i < length bs \<longrightarrow> concat chunks ! i = bs ! (0 + i)"
  by (simp add: assms nth_append)

lemma cs_css_even: "even k \<Longrightarrow> cs_css css0 bs k = take (k div 2) (cs_suites bs) @ drop (k div 2) css0"
  by (auto simp: cs_css_def elim!: evenE)

text \<open>The array and the counters at the end of the list.\<close>

lemma cs_at_end:
  assumes "cs_start t (length bs)"
  shows "css (hs (cs_at t bs (length bs)))
           = take (length (css (hs t))) (cs_suites bs) @ drop (length bs div 2) (css (hs t))"
    and "cs_total_len (hs (cs_at t bs (length bs))) = min (length bs) (sizeof_css t)"
    and "cs_cur_len (hs (cs_at t bs (length bs))) = length bs"
    and "hslen (cs_at t bs (length bs)) = hslen t - of_nat (length bs)"
    and "take (cs_total_len (hs (cs_at t bs (length bs))) div 2) (css (hs (cs_at t bs (length bs))))
           = take (length (css (hs t))) (cs_suites bs)"
proof -
  let ?L = "length bs" and ?M = "length (css (hs t))"
  have evL: "even ?L"
    using assms by (simp add: cs_start_def)
  have ev: "even (min ?L (sizeof_css t))"
    using evL by (simp add: min_def sizeof_css_def)
  have m: "min ?L (sizeof_css t) div 2 = min (?L div 2) ?M"
    by (simp add: min_def sizeof_css_def) linarith
  have css: "css (hs (cs_at t bs ?L))
        = take (min (?L div 2) ?M) (cs_suites bs) @ drop (min (?L div 2) ?M) (css (hs t))"
    using cs_css_even [OF ev, of "css (hs t)" bs] by (simp add: cs_at_def m)
  show "css (hs (cs_at t bs ?L)) = take ?M (cs_suites bs) @ drop (?L div 2) (css (hs t))"
    unfolding css by (cases "?L div 2 \<le> ?M") (simp_all add: min_def cs_suites_length)
  show tot: "cs_total_len (hs (cs_at t bs ?L)) = min ?L (sizeof_css t)"
    by (simp add: cs_at_def min_def)
  show "cs_cur_len (hs (cs_at t bs ?L)) = ?L"
    using evL by (simp add: cs_at_def)
  show "hslen (cs_at t bs ?L) = hslen t - of_nat ?L"
    using evL by (simp add: cs_at_def)
  have "take (min (?L div 2) ?M) (cs_suites bs) = take ?M (cs_suites bs)"
    by (simp add: min_def cs_suites_length)
  then show "take (cs_total_len (hs (cs_at t bs ?L)) div 2) (css (hs (cs_at t bs ?L)))
           = take ?M (cs_suites bs)"
    unfolding tot m css by (simp add: cs_suites_length)
qed

subsection \<open>The selection of the suite\<close>

lemma scan_peer_have: "scan_peer m c peer got = Have i \<Longrightarrow> c \<in> uint ` set peer"
  by (induction peer arbitrary: got) (auto split: if_splits prod.splits option.splits)

lemma scan_own_chosen:
  "scan_own m srv peer got = Chosen c i \<Longrightarrow> c \<in> set srv \<and> c \<in> uint ` set peer"
proof (induction srv arbitrary: got)
  case Nil
  then show ?case by simp
next
  case (Cons a srv)
  then show ?case
    using scan_peer_have [of m a peer got]
    by (auto split: suite_scan.splits)
qed

lemma scan_peer_ret: "scan_peer m c peer got = Ret r \<Longrightarrow> r \<noteq> RC_OK"
  by (induction peer arbitrary: got) (auto split: if_splits prod.splits option.splits)

lemma scan_own_ret: "scan_own m srv peer got = Choice_ret r \<Longrightarrow> r \<noteq> RC_OK"
proof (induction srv arbitrary: got)
  case Nil
  then show ?case by simp
next
  case (Cons a srv)
  then show ?case
    using scan_peer_ret [of m a peer got]
    by (auto split: suite_scan.splits)
qed

lemma choose_ciphersuite_entries:
  assumes "cs_total_len (hs tls) div 2 \<le> length (css (hs tls))"
    and "take (cs_total_len (hs tls) div 2) (css (hs tls)) = peer"
  shows "ttls_choose_ciphersuite m srv tls =
           Some (case scan_own (m tls) srv peer False of
                   Chosen c i \<Rightarrow> (RC_OK, tls\<lparr>sess := (sess tls)\<lparr>ciphersuite := c\<rparr>\<rparr>, Some i)
                 | Choice_ret r \<Rightarrow> (r, tls, None)
                 | No_suite got \<Rightarrow>
                     (EINVAL,
                      ttls_send_alert tls TTLS_ALERT_LEVEL_FATAL TTLS_ALERT_MSG_HANDSHAKE_FAILURE,
                      None))"
  using assms
  by (simp add: ttls_choose_ciphersuite_def Let_def split: suite_choice.splits)

lemma choose_ciphersuite_stored:
  assumes "cs_total_len (hs tls) div 2 \<le> length (css (hs tls))"
    and "take (cs_total_len (hs tls) div 2) (css (hs tls)) = peer"
    and "ttls_choose_ciphersuite m srv tls = Some (RC_OK, tls1, ci)"
  shows "ciphersuite (sess tls1) \<in> set srv \<and> ciphersuite (sess tls1) \<in> uint ` set peer"
proof (cases "scan_own (m tls) srv peer False")
  case (Chosen c i)
  then show ?thesis
    using assms(3) scan_own_chosen [OF Chosen]
    by (auto simp: choose_ciphersuite_entries [OF assms(1,2)])
next
  case (Choice_ret r)
  have "r \<noteq> RC_OK"
    using Choice_ret by (rule scan_own_ret)
  then show ?thesis
    using assms(3) Choice_ret by (auto simp: choose_ciphersuite_entries [OF assms(1,2)])
next
  case (No_suite got)
  then show ?thesis
    using assms(3) by (auto simp: choose_ciphersuite_entries [OF assms(1,2)])
qed

subsection \<open>A whole list\<close>

lemma cs_feed_list:
  assumes "cs_start tls (length bs)" "\<not> cs_fallback_refused tls bs"
    and "[] \<notin> set chunks" "concat chunks = bs @ tail" "tail \<noteq> []"
  shows "\<exists>rest later. rest \<noteq> [] \<and> tail = rest @ later \<and>
            ch_feed tls chunks = Continues TTLS_CH_HS_COMPN (cs_at tls bs (length bs)) rest"
proof -
  note stream = cs_stream [OF assms(4)]
  have len: "length bs < 0 + length (concat chunks)"
    using assms(4,5) by simp
  have "\<exists>rest later. rest \<noteq> [] \<and> drop (length bs - 0) (concat chunks) = rest @ later \<and>
          ch_feed (cs_at tls bs 0) chunks
            = Continues TTLS_CH_HS_COMPN (cs_at tls bs (length bs)) rest"
    using cs_feed_ok [OF assms(1,2), of 0 chunks] assms(3) stream len by simp
  then show ?thesis
    unfolding cs_at_zero [OF assms(1)] by (simp add: assms(4))
qed

lemma cs_one_chunk:
  assumes "cs_start tls (length bs)" "\<not> cs_fallback_refused tls bs" "tail \<noteq> []"
  shows "ch_feed tls [bs @ tail] = Continues TTLS_CH_HS_COMPN (cs_at tls bs (length bs)) tail"
proof -
  have ty: "hstype tls = TTLS_HS_CLIENT_HELLO" and sub: "substate tls = TTLS_CH_HS_CS"
    and "2 \<le> length bs"
    using assms(1) by (simp_all add: cs_start_def)
  then have pos: "0 < length bs"
    by linarith
  have ne: "bs @ tail \<noteq> []"
    using assms(3) by simp
  have match: "\<forall>i<length (bs @ tail). 0 + i < length bs \<longrightarrow> (bs @ tail) ! i = bs ! (0 + i)"
    by (simp add: nth_append)
  have nr: "\<forall>q. q < length (css (hs tls)) \<and> 0 \<le> 2 * q + 1 \<and>
        2 * q + 2 \<le> 0 + length (bs @ tail) \<and> 2 * q + 2 \<le> length bs \<longrightarrow> \<not> cs_refused tls bs q"
    using cs_not_refused [OF assms(2)] by blast
  have gt: "\<not> 0 + length (bs @ tail) \<le> length bs"
    using assms(3) by simp
  have "ch_fsm (substate (cs_at tls bs 0)) (cs_at tls bs 0) (bs @ tail) =
      Continues TTLS_CH_HS_COMPN (cs_at tls bs (length bs)) (drop (length bs - 0) (bs @ tail))"
    using cs_chunk_ok [OF assms(1) pos ne match nr] gt by (simp only: if_False)
  then have "ch_fsm TTLS_CH_HS_CS tls (bs @ tail) =
      Continues TTLS_CH_HS_COMPN (cs_at tls bs (length bs)) tail"
    unfolding cs_at_zero [OF assms(1)] sub by simp
  then show ?thesis
    by (simp add: ttls_parse_client_hello_def ty sub)
qed

subsection \<open>The signalling cipher suite values\<close>

text \<open>
  C6, for the suites that go into the array. The parser is at the start of a list
  \<open>bs\<close> and gets the list and at least one byte more in chunks of any size. When one of
  the first \<open>length css\<close> suites is the fallback signalling value and the version of the
  connection is below \<open>max_minor_ver\<close>, a call returns \<open>TTLS_ERR_BAD_HS_CLIENT_HELLO\<close>
  after one fatal \<open>inappropriate_fallback\<close> alert. Otherwise the parser reaches the
  compression methods without an alert, the fallback signalling value is stored like
  any other suite, and \<open>secure_renegotiation\<close> is set when it was set before or one of the
  first \<open>length css\<close> suites is the renegotiation signalling value.
\<close>

theorem scsv_in_stored_suites:
  assumes "cs_start tls (length bs)" "[] \<notin> set chunks" "concat chunks = bs @ tail" "tail \<noteq> []"
  shows "(cs_fallback_refused tls bs \<longrightarrow>
           (\<exists>Y. ch_feed tls chunks = Returned TTLS_ERR_BAD_HS_CLIENT_HELLO Y \<and>
                alerts Y = alerts tls @
                  [(TTLS_ALERT_LEVEL_FATAL, TTLS_ALERT_MSG_INAPROPRIATE_FALLBACK)])) \<and>
         (\<not> cs_fallback_refused tls bs \<longrightarrow>
           (\<exists>rest. ch_feed tls chunks =
                     Continues TTLS_CH_HS_COMPN (cs_at tls bs (length bs)) rest) \<and>
           alerts (cs_at tls bs (length bs)) = alerts tls \<and>
           secure_renegotiation (hs (cs_at tls bs (length bs))) =
             (secure_renegotiation (hs tls) \<or>
              TTLS_EMPTY_RENEGOTIATION_INFO \<in> set (take (length (css (hs tls))) (cs_suites bs))))"
proof (intro conjI impI)
  note stream = cs_stream [OF assms(3)]
  have len: "length bs < 0 + length (concat chunks)"
    using assms(3,4) by simp
  {
    assume "cs_fallback_refused tls bs"
    then obtain q0 where q0: "q0 < length (css (hs tls))" "2 * q0 + 2 \<le> length bs"
        "cs_refused tls bs q0" "\<forall>q<q0. \<not> cs_refused tls bs q"
      using cs_first_refused by blast
    have "2 * q0 + 2 \<le> 0 + length (concat chunks)"
      using q0(2) len by simp
    then have "\<exists>Y. ch_feed (cs_at tls bs 0) chunks = Returned TTLS_ERR_BAD_HS_CLIENT_HELLO Y \<and>
        alerts Y = alerts tls @ [(TTLS_ALERT_LEVEL_FATAL, TTLS_ALERT_MSG_INAPROPRIATE_FALLBACK)]"
      using cs_feed_refused [OF assms(1) q0, of 0 chunks] assms(2) stream by simp
    then show "\<exists>Y. ch_feed tls chunks = Returned TTLS_ERR_BAD_HS_CLIENT_HELLO Y \<and>
        alerts Y = alerts tls @ [(TTLS_ALERT_LEVEL_FATAL, TTLS_ALERT_MSG_INAPROPRIATE_FALLBACK)]"
      by (simp add: cs_at_zero [OF assms(1)])
  }
  {
    assume nr: "\<not> cs_fallback_refused tls bs"
    show "\<exists>rest. ch_feed tls chunks =
                     Continues TTLS_CH_HS_COMPN (cs_at tls bs (length bs)) rest"
      using cs_feed_list [OF assms(1) nr assms(2,3,4)] by blast
  }
  show "alerts (cs_at tls bs (length bs)) = alerts tls"
    by (simp add: cs_at_same)
  show "secure_renegotiation (hs (cs_at tls bs (length bs))) =
             (secure_renegotiation (hs tls) \<or>
              TTLS_EMPTY_RENEGOTIATION_INFO \<in> set (take (length (css (hs tls))) (cs_suites bs)))"
  proof (cases "length bs \<le> sizeof_css tls")
    case True
    then have "length bs div 2 \<le> length (css (hs tls))"
      unfolding sizeof_css_def by linarith
    then have "take (length bs div 2) (cs_suites bs) = take (length (css (hs tls))) (cs_suites bs)"
      by (simp add: cs_suites_length)
    then show ?thesis
      using True by (simp add: cs_at_store)
  next
    case False
    then show ?thesis
      by (simp add: cs_at_skip)
  qed
qed

theorem scsv_in_stored_suites_witness:
  "cs_start (tls_list 10) (length list_fallback_last) \<and>
   [] \<notin> set [[0x00], [0x2F, 0x00, 0x35, 0xC0], [0x2B, 0x00, 0xFF, 0x56, 0x00, 1], [0::byte]] \<and>
   concat [[0x00], [0x2F, 0x00, 0x35, 0xC0], [0x2B, 0x00, 0xFF, 0x56, 0x00, 1], [0]]
     = list_fallback_last @ [1, 0] \<and>
   \<not> cs_fallback_refused (tls_list 10) list_fallback_last \<and>
   (\<exists>rest. ch_feed (tls_list 10)
             [[0x00], [0x2F, 0x00, 0x35, 0xC0], [0x2B, 0x00, 0xFF, 0x56, 0x00, 1], [0]]
           = Continues TTLS_CH_HS_COMPN (cs_at (tls_list 10) list_fallback_last 10) rest) \<and>
   secure_renegotiation (hs (cs_at (tls_list 10) list_fallback_last 10)) \<and>
   cs_start (tls_list 6) (length list_fallback_second) \<and>
   cs_fallback_refused (tls_list 6) list_fallback_second \<and>
   (\<exists>Y. ch_feed (tls_list 6) [[0x00, 0x2F, 0x56], [0x00, 0xC0], [0x2B, 1, 0]]
           = Returned TTLS_ERR_BAD_HS_CLIENT_HELLO Y \<and>
        alerts Y = [(TTLS_ALERT_LEVEL_FATAL, TTLS_ALERT_MSG_INAPROPRIATE_FALLBACK)])"
proof -
  have s1: "cs_suites list_fallback_last = [0x2F, 0x35, 0xC02B, 0xFF, 0x5600]"
    by (simp add: cs_suites_def cs_suite_def list_fallback_last_def upt_conv_Cons)
  have s3: "cs_suites list_fallback_second = [0x2F, 0x5600, 0xC02B]"
    by (simp add: cs_suites_def cs_suite_def list_fallback_second_def upt_conv_Cons)
  have st: "cs_start (tls_list 10) (length list_fallback_last)"
      "cs_start (tls_list 6) (length list_fallback_second)"
    by (simp_all add: cs_start_def tls_list_def tls0_def list_fallback_last_def
        list_fallback_second_def TTLS_HS_CLIENT_HELLO_def)
  have nr: "\<not> cs_fallback_refused (tls_list 10) list_fallback_last"
    by (simp add: cs_fallback_refused_def s1 tls_list_def tls0_def TTLS_FALLBACK_SCSV_VALUE_def)
  have rf: "cs_fallback_refused (tls_list 6) list_fallback_second"
    by (simp add: cs_fallback_refused_def s3 tls_list_def tls0_def TTLS_FALLBACK_SCSV_VALUE_def)
  have c1: "concat [[0x00], [0x2F, 0x00, 0x35, 0xC0], [0x2B, 0x00, 0xFF, 0x56, 0x00, 1], [0]]
              = list_fallback_last @ [1, 0::byte]"
    by (simp add: list_fallback_last_def)
  have c2: "concat [[0x00, 0x2F, 0x56], [0x00, 0xC0], [0x2B, 1, 0]]
              = list_fallback_second @ [1, 0::byte]"
    by (simp add: list_fallback_second_def)
  have l: "length list_fallback_last = 10"
    by (simp add: list_fallback_last_def)
  have ne1: "[] \<notin> set [[0x00], [0x2F, 0x00, 0x35, 0xC0], [0x2B, 0x00, 0xFF, 0x56, 0x00, 1], [0::byte]]"
    and ne2: "[] \<notin> set [[0x00, 0x2F, 0x56], [0x00, 0xC0], [0x2B, 1, 0::byte]]"
    and t: "[1, 0::byte] \<noteq> []"
    by simp_all
  note a = scsv_in_stored_suites [OF st(1) ne1 c1 t, unfolded l]
  note b = scsv_in_stored_suites [OF st(2) ne2 c2 t]
  have ri: "secure_renegotiation (hs (tls_list 10)) \<or> TTLS_EMPTY_RENEGOTIATION_INFO
      \<in> set (take (length (css (hs (tls_list 10)))) (cs_suites list_fallback_last))"
    by (simp add: s1 TTLS_EMPTY_RENEGOTIATION_INFO_def tls_list_def tls0_def)
  have al: "alerts (tls_list 6) = []"
    by (simp add: tls_list_def tls0_def)
  have a1: "\<exists>rest. ch_feed (tls_list 10)
             [[0x00], [0x2F, 0x00, 0x35, 0xC0], [0x2B, 0x00, 0xFF, 0x56, 0x00, 1], [0]]
           = Continues TTLS_CH_HS_COMPN (cs_at (tls_list 10) list_fallback_last 10) rest"
    and a2: "secure_renegotiation (hs (cs_at (tls_list 10) list_fallback_last 10))"
    using a nr ri by blast+
  have b1: "\<exists>Y. ch_feed (tls_list 6) [[0x00, 0x2F, 0x56], [0x00, 0xC0], [0x2B, 1, 0]]
           = Returned TTLS_ERR_BAD_HS_CLIENT_HELLO Y \<and>
        alerts Y = [(TTLS_ALERT_LEVEL_FATAL, TTLS_ALERT_MSG_INAPROPRIATE_FALLBACK)]"
    using b rf unfolding al append_Nil by blast
  show ?thesis
    using st ne1 c1 nr a1 a2 rf b1 by blast
qed

text \<open>
  The claim as the specification states it fails for a list that is longer than the
  array \<open>css\<close>: the suites behind the array are skipped without a look at them. With room
  for four suites, a fallback signalling value in fifth place does not end the handshake
  of a connection below the highest version, and a renegotiation signalling value in
  fifth place does not set \<open>secure_renegotiation\<close>.
\<close>

theorem scsv_behind_array_counterexample:
  "TTLS_FALLBACK_SCSV_VALUE \<in> set (cs_suites list_fallback_last) \<and>
   minor (tls_list 10) < max_minor_ver (conf (tls_list 10)) \<and>
   ch_feed (tls_list 10) [list_fallback_last @ [1, 0]] =
     Continues TTLS_CH_HS_COMPN (cs_at (tls_list 10) list_fallback_last 10) [1, 0] \<and>
   alerts (cs_at (tls_list 10) list_fallback_last 10) = [] \<and>
   TTLS_EMPTY_RENEGOTIATION_INFO \<in> set (cs_suites list_reneg_last) \<and>
   ch_feed (tls_list 10) [list_reneg_last @ [1, 0]] =
     Continues TTLS_CH_HS_COMPN (cs_at (tls_list 10) list_reneg_last 10) [1, 0] \<and>
   secure_renegotiation (hs (cs_at (tls_list 10) list_reneg_last 10)) = False"
proof -
  have s1: "cs_suites list_fallback_last = [0x2F, 0x35, 0xC02B, 0xFF, 0x5600]"
    by (simp add: cs_suites_def cs_suite_def list_fallback_last_def upt_conv_Cons)
  have s2: "cs_suites list_reneg_last = [0x2F, 0x35, 0xC02B, 0xC02F, 0xFF]"
    by (simp add: cs_suites_def cs_suite_def list_reneg_last_def upt_conv_Cons)
  have st: "cs_start (tls_list 10) (length list_fallback_last)"
      "cs_start (tls_list 10) (length list_reneg_last)"
    by (simp_all add: cs_start_def tls_list_def tls0_def list_fallback_last_def
        list_reneg_last_def TTLS_HS_CLIENT_HELLO_def)
  have nr: "\<not> cs_fallback_refused (tls_list 10) list_fallback_last"
      "\<not> cs_fallback_refused (tls_list 10) list_reneg_last"
    by (simp_all add: cs_fallback_refused_def s1 s2 tls_list_def tls0_def
        TTLS_FALLBACK_SCSV_VALUE_def)
  have l: "length list_fallback_last = 10" "length list_reneg_last = 10"
    by (simp_all add: list_fallback_last_def list_reneg_last_def)
  have t: "[1, 0::byte] \<noteq> []"
    by simp
  note f1 = cs_one_chunk [OF st(1) nr(1) t, unfolded l]
  note f2 = cs_one_chunk [OF st(2) nr(2) t, unfolded l]
  have sr: "secure_renegotiation (hs (cs_at (tls_list 10) list_reneg_last 10)) = False"
    by (simp add: cs_at_def s2 sizeof_css_def tls_list_def tls0_def
        TTLS_EMPTY_RENEGOTIATION_INFO_def)
  have m1: "TTLS_FALLBACK_SCSV_VALUE \<in> set (cs_suites list_fallback_last)"
    by (simp add: s1 TTLS_FALLBACK_SCSV_VALUE_def)
  have m2: "TTLS_EMPTY_RENEGOTIATION_INFO \<in> set (cs_suites list_reneg_last)"
    by (simp add: s2 TTLS_EMPTY_RENEGOTIATION_INFO_def)
  have mv: "minor (tls_list 10) < max_minor_ver (conf (tls_list 10))"
    by (simp add: tls_list_def tls0_def)
  have al: "alerts (cs_at (tls_list 10) list_fallback_last 10) = []"
    by (simp add: cs_at_same tls_list_def tls0_def)
  show ?thesis
    using m1 m2 mv al f1 f2 sr by blast
qed

subsection \<open>The stored cipher suites\<close>

text \<open>
  C8. The parser is at the start of a list \<open>bs\<close> of the declared length and gets the
  list and at least one byte more in chunks of any size; no suite is refused by
  \<open>ttls_check_scsvs\<close>. Then it reaches the compression methods with exactly the bytes of
  the list consumed: what is left of the chunk is the start of the bytes behind the list,
  and \<open>io->hslen\<close> went down by the length of the list. The array \<open>css\<close> holds the first
  \<open>length css\<close> suites of the list, in the order of the list (and its old entries behind
  a shorter list), and \<open>cs_total_len\<close> counts the stored suites only.
  \<open>ttls_choose_ciphersuite\<close> then runs the own preference list against these stored
  suites: a suite that it selects is one of them.
\<close>

theorem cipher_suites_clamped:
  assumes "cs_start tls (length bs)" "[] \<notin> set chunks" "concat chunks = bs @ tail" "tail \<noteq> []"
    and "\<not> cs_fallback_refused tls bs"
  shows "(\<exists>rest later. rest \<noteq> [] \<and> tail = rest @ later \<and>
            ch_feed tls chunks = Continues TTLS_CH_HS_COMPN (cs_at tls bs (length bs)) rest) \<and>
         css (hs (cs_at tls bs (length bs)))
           = take (length (css (hs tls))) (cs_suites bs) @ drop (length bs div 2) (css (hs tls)) \<and>
         cs_total_len (hs (cs_at tls bs (length bs))) = min (length bs) (sizeof_css tls) \<and>
         hslen (cs_at tls bs (length bs)) = hslen tls - of_nat (length bs) \<and>
         ttls_choose_ciphersuite m srv (cs_at tls bs (length bs)) =
           Some (case scan_own (m (cs_at tls bs (length bs))) srv
                        (take (length (css (hs tls))) (cs_suites bs)) False of
                   Chosen c i \<Rightarrow>
                     (RC_OK,
                      (cs_at tls bs (length bs))
                        \<lparr>sess := (sess (cs_at tls bs (length bs)))\<lparr>ciphersuite := c\<rparr>\<rparr>,
                      Some i)
                 | Choice_ret r \<Rightarrow> (r, cs_at tls bs (length bs), None)
                 | No_suite got \<Rightarrow>
                     (EINVAL,
                      ttls_send_alert (cs_at tls bs (length bs)) TTLS_ALERT_LEVEL_FATAL
                        TTLS_ALERT_MSG_HANDSHAKE_FAILURE,
                      None)) \<and>
         (\<forall>tls1 ci. ttls_choose_ciphersuite m srv (cs_at tls bs (length bs)) = Some (RC_OK, tls1, ci)
            \<longrightarrow> ciphersuite (sess tls1) \<in> uint ` set (take (length (css (hs tls))) (cs_suites bs)))"
proof -
  let ?F = "cs_at tls bs (length bs)"
  note feed = cs_feed_list [OF assms(1,5,2,3,4)]
  note e = cs_at_end [OF assms(1)]
  have sz: "sizeof_css ?F = sizeof_css tls"
    by (simp add: cs_at_sizeof)
  have "min (length bs) (sizeof_css tls) div 2 \<le> length (css (hs tls))"
    unfolding sizeof_css_def by simp
  moreover have "length (css (hs ?F)) = length (css (hs tls))"
    using sz by (simp add: sizeof_css_def)
  ultimately have cnt: "cs_total_len (hs ?F) div 2 \<le> length (css (hs ?F))"
    unfolding e(2) by simp
  note ch = choose_ciphersuite_entries [OF cnt e(5)]
  have sel: "\<forall>tls1 ci. ttls_choose_ciphersuite m srv ?F = Some (RC_OK, tls1, ci)
            \<longrightarrow> ciphersuite (sess tls1) \<in> uint ` set (take (length (css (hs tls))) (cs_suites bs))"
    using choose_ciphersuite_stored [OF cnt e(5)] by blast
  show ?thesis
    using feed e(1,2,4) ch sel by blast
qed

theorem cipher_suites_clamped_witness:
  "cs_start (tls_list 10) (length list_fallback_last) \<and>
   [] \<notin> set [[0x00], [0x2F, 0x00, 0x35, 0xC0], [0x2B, 0x00, 0xFF, 0x56, 0x00, 1], [0::byte]] \<and>
   concat [[0x00], [0x2F, 0x00, 0x35, 0xC0], [0x2B, 0x00, 0xFF, 0x56, 0x00, 1], [0]]
     = list_fallback_last @ [1, 0] \<and>
   \<not> cs_fallback_refused (tls_list 10) list_fallback_last \<and>
   (\<exists>rest later. rest \<noteq> [] \<and> [1, 0] = rest @ later \<and>
      ch_feed (tls_list 10)
          [[0x00], [0x2F, 0x00, 0x35, 0xC0], [0x2B, 0x00, 0xFF, 0x56, 0x00, 1], [0]]
        = Continues TTLS_CH_HS_COMPN (cs_at (tls_list 10) list_fallback_last 10) rest) \<and>
   css (hs (cs_at (tls_list 10) list_fallback_last 10)) = [0x2F, 0x35, 0xC02B, 0xFF] \<and>
   cs_total_len (hs (cs_at (tls_list 10) list_fallback_last 10)) = 8 \<and>
   hslen (cs_at (tls_list 10) list_fallback_last 10) = 40 \<and>
   ttls_choose_ciphersuite (\<lambda>t c. (RC_OK, Some c)) [0x5600, 0x35, 0x2F]
       (cs_at (tls_list 10) list_fallback_last 10)
     = Some (RC_OK,
             (cs_at (tls_list 10) list_fallback_last 10)
               \<lparr>sess := (sess (cs_at (tls_list 10) list_fallback_last 10))\<lparr>ciphersuite := 0x35\<rparr>\<rparr>,
             Some 0x35)"
proof -
  have s1: "cs_suites list_fallback_last = [0x2F, 0x35, 0xC02B, 0xFF, 0x5600]"
    by (simp add: cs_suites_def cs_suite_def list_fallback_last_def upt_conv_Cons)
  have st: "cs_start (tls_list 10) (length list_fallback_last)"
    by (simp add: cs_start_def tls_list_def tls0_def list_fallback_last_def
        TTLS_HS_CLIENT_HELLO_def)
  have nr: "\<not> cs_fallback_refused (tls_list 10) list_fallback_last"
    by (simp add: cs_fallback_refused_def s1 tls_list_def tls0_def TTLS_FALLBACK_SCSV_VALUE_def)
  have c1: "concat [[0x00], [0x2F, 0x00, 0x35, 0xC0], [0x2B, 0x00, 0xFF, 0x56, 0x00, 1], [0]]
              = list_fallback_last @ [1, 0::byte]"
    by (simp add: list_fallback_last_def)
  have l: "length list_fallback_last = 10"
    by (simp add: list_fallback_last_def)
  have ne1: "[] \<notin> set [[0x00], [0x2F, 0x00, 0x35, 0xC0], [0x2B, 0x00, 0xFF, 0x56, 0x00, 1], [0::byte]]"
    and t: "[1, 0::byte] \<noteq> []"
    by simp_all
  note a = cipher_suites_clamped [where m = "\<lambda>t c. (RC_OK, Some c)" and srv = "[0x5600, 0x35, 0x2F]",
      OF st ne1 c1 t nr, unfolded l]
  have a1: "\<exists>rest later. rest \<noteq> [] \<and> [1, 0] = rest @ later \<and>
      ch_feed (tls_list 10)
          [[0x00], [0x2F, 0x00, 0x35, 0xC0], [0x2B, 0x00, 0xFF, 0x56, 0x00, 1], [0]]
        = Continues TTLS_CH_HS_COMPN (cs_at (tls_list 10) list_fallback_last 10) rest"
    by (rule a [THEN conjunct1])
  have a2: "css (hs (cs_at (tls_list 10) list_fallback_last 10)) = [0x2F, 0x35, 0xC02B, 0xFF]"
    using a [THEN conjunct2, THEN conjunct1] by (simp add: s1 tls_list_def tls0_def)
  have a3: "cs_total_len (hs (cs_at (tls_list 10) list_fallback_last 10)) = 8"
    using a [THEN conjunct2, THEN conjunct2, THEN conjunct1]
    by (simp add: sizeof_css_def tls_list_def tls0_def)
  have a4: "hslen (cs_at (tls_list 10) list_fallback_last 10) = 40"
    using a [THEN conjunct2, THEN conjunct2, THEN conjunct2, THEN conjunct1]
    by (simp add: tls_list_def tls0_def)
  have a5: "ttls_choose_ciphersuite (\<lambda>t c. (RC_OK, Some c)) [0x5600, 0x35, 0x2F]
       (cs_at (tls_list 10) list_fallback_last 10)
     = Some (RC_OK,
             (cs_at (tls_list 10) list_fallback_last 10)
               \<lparr>sess := (sess (cs_at (tls_list 10) list_fallback_last 10))\<lparr>ciphersuite := 0x35\<rparr>\<rparr>,
             Some 0x35)"
    using a [THEN conjunct2, THEN conjunct2, THEN conjunct2, THEN conjunct2, THEN conjunct1]
    by (simp add: s1 tls_list_def tls0_def)
  show ?thesis
    using st ne1 c1 nr a1 a2 a3 a4 a5 by blast
qed


chapter \<open>Properties of the big number arithmetic\<close>

section \<open>Evaluation of the model\<close>

text \<open>
  The functions of the model are evaluated by rewriting. The congruence rules keep the
  simplifier from entering a continuation before its argument is a value.
\<close>

lemma rbind_weak_cong: "r = r' \<Longrightarrow> rbind r f = rbind r' f"
  by simp

lemma obind_weak_cong: "r = r' \<Longrightarrow> obind r f = obind r' f"
  by simp

lemma rbind_simps:
  "rbind (Ok x) f = f x" "rbind (Err c) f = Err c" "rbind Fault f = Fault"
  by (simp_all add: rbind_def)

lemma obind_simps:
  "obind None g = None" "obind (Some (Ok x)) g = g x" "obind (Some (Err c)) g = Some (Err c)"
  "obind (Some Fault) g = Some Fault"
  by (simp_all add: obind_def)

lemma replicate_unfold: "0 < n \<Longrightarrow> replicate n x = x # replicate (n - 1) x"
  by (cases n) auto

lemma list_update_unfold: "0 < n \<Longrightarrow> (x # xs)[n := v] = x # xs[n - 1 := v]"
  by (cases n) auto

lemma upt_unfold: "i < j \<Longrightarrow> [i..<j] = i # [i + 1..<j]"
  by (simp add: upt_conv_Cons)

text \<open>Negative literals of limbs are rewritten to their value below \<open>2 ^ 64\<close>.\<close>

lemma limb_minus_one: "(- 1 :: limb) = 18446744073709551615"
  by simp

lemma limb_neg_nat:
  "(- word_of_nat n :: limb) = word_of_nat (18446744073709551616 - n mod 18446744073709551616)"
proof -
  have "(word_of_nat (18446744073709551616 - n mod 18446744073709551616) :: limb)
        = word_of_nat 18446744073709551616 - word_of_nat (n mod 18446744073709551616)"
    by (rule of_nat_diff) simp
  also have "\<dots> = - word_of_nat (n mod 18446744073709551616)"
    by simp
  also have "(word_of_nat (n mod 18446744073709551616) :: limb) = word_of_nat n"
    by (simp add: word_of_nat_eq_iff take_bit_eq_mod)
  finally show ?thesis by simp
qed

lemma limb_neg_numeral:
  "(- numeral k :: limb) = word_of_nat (18446744073709551616 - numeral k mod 18446744073709551616)"
  using limb_neg_nat [of "numeral k"] by (simp only: of_nat_numeral)

lemmas mpi_eval = limb_minus_one limb_neg_numeral upt_unfold rbind_simps obind_simps or_enomem_def mpi_env0_def mpi_env1_def
  mpi_of_limb_def replicate_unfold list_update_unfold
  ttls_mpi_mod_mpi_def ttls_mpi_div_mpi_def div_setup_def div_finish_def div_early_def
  div_for.simps div_body_def div_t1_def div_t2_def div_qloop.simps div_while.simps
  mod_add_loop.simps mod_sub_loop.simps
  ttls_mpi_cmp_int_def cmp_int_limb_def ttls_mpi_cmp_abs_def ttls_mpi_cmp_mpi_def cmp_limbs.simps
  ttls_mpi_copy_def ttls_mpi_lset_def mpi_realloc_def kmalloc_def ttls_mpi_init_def limbs_def
  mpi_fixup_used_def fixup_loop.simps ttls_mpi_bitlen_def fls64_def nat_bitlen.simps
  ttls_mpi_shift_l_def ttls_mpi_shift_r_def shl_bits.simps shr_bits.simps BITS_TO_LIMBS_def
  BIL_def BIH_def
  ttls_mpi_sub_abs_def ttls_mpi_sub_mpi_def ttls_mpi_add_mpi_def ttls_mpi_add_abs_def
  add_abs_core_def mpi_sub_def sub_loop1.simps sub_loop2.simps add_loop1.simps add_loop2.simps
  carry_of_def msb_set_def
  ttls_mpi_mul_mpi_def ttls_mpi_mul_uint_def mul_loop.simps mpi_mul.simps carry_prop.simps
  ttls_int_div_int_def div_loop.simps div_loop_cond_def radix_def
  ttls_mpi_grow_def mpi_montg_init_def montmul_loop.simps mpi_montmul_def mpi_montred_def
  MPI_W_SZ_def W_cleared_def mont_squarings.simps exp_table.simps limb_bits_def exp_bits_def
  exp_loop.simps exp_rest.simps exp_wsize_def exp_rr_def exp_w1_def exp_window_def
  ttls_mpi_exp_mod_def

section \<open>Normalisation of the results\<close>

text \<open>
  Claim C4. Every operation that writes a destination is to leave \<open>limb[used - 1] \<noteq> 0\<close>
  whenever \<open>used > 1\<close>, and \<open>ttls_mpi_fill_random\<close> is to fix \<open>used\<close> after it has cleared the
  spare bytes of the high limb. The function sets \<open>used\<close> to the number of limbs and does not
  call \<open>mpi_fixup_used\<close>: for 9 bytes of randomness the last of which is 0, the result has
  \<open>used = 2\<close> and a high limb 0, while \<open>mpi_fixup_used\<close> on the same limbs gives \<open>used = 1\<close>.
\<close>

theorem fill_random_not_normalised:
  "ttls_mpi_fill_random mpi_env1 ttls_mpi_init 9 [1, 2, 3, 4, 5, 6, 7, 8, 0]
     = Ok \<lparr>mpi_s = 1, used = 2, mpi_p = [0x0807060504030201, 0]\<rparr>
   \<and> mpi_p \<lparr>mpi_s = 1, used = 2, mpi_p = [0x0807060504030201, 0::limb]\<rparr> ! (2 - 1) = 0
   \<and> used (mpi_fixup_used \<lparr>mpi_s = 1, used = 2, mpi_p = [0x0807060504030201, 0]\<rparr> 2) = 1"
  by code_simp

text \<open>
  The right shift of a one-limb number to zero leaves \<open>used = 0\<close>, not the canonical zero
  with \<open>used = 1\<close>.
\<close>

lemma shift_r_to_zero:
  "ttls_mpi_shift_r mpi_env0 (mpi_of_limb 1 1) 3 = Ok \<lparr>mpi_s = 1, used = 0, mpi_p = [0]\<rparr>"
  by code_simp

section \<open>Modular exponentiation\<close>

text \<open>
  Claim C2. \<open>ttls_mpi_exp_mod\<close> is to return \<open>X\<close> with \<open>0 \<le> X < N\<close>. For a negative \<open>A\<close> and
  an odd \<open>E\<close> the function sets the sign of the result to \<open>-1\<close> and adds \<open>N\<close>, also when the
  result is 0: for \<open>A = -3\<close>, \<open>E = 1\<close> and \<open>N = 3\<close> it returns \<open>X = 3 = N\<close>.
\<close>

theorem exp_mod_negative_multiple:
  "ttls_mpi_exp_mod mpi_env0 ttls_mpi_init (mpi_of_limb (- 1) 3) (mpi_of_limb 1 1)
       (mpi_of_limb 1 3) ttls_mpi_init
     = Some (Ok (\<lparr>mpi_s = 1, used = 1, mpi_p = [3, 0]\<rparr>,
                 \<lparr>mpi_s = 1, used = 1, mpi_p = [1, 0, 1]\<rparr>))
   \<and> mpi_val \<lparr>mpi_s = 1, used = 1, mpi_p = [3, 0]\<rparr> = mpi_val (mpi_of_limb 1 3)"
  by (simp add: mpi_eval mpi_val_def mpi_abs_def limbs_val.simps Let_def
        cong: rbind_weak_cong obind_weak_cong let_weak_cong)

text \<open>
  The table entry \<open>W[1]\<close> is allocated without being cleared, \<open>ttls_mpi_copy\<close> writes
  \<open>A->used\<close> limbs of it and \<open>mpi_montmul\<close> reads \<open>N->used\<close> limbs: when \<open>A\<close> has fewer
  limbs than \<open>N\<close>, the result depends on what the allocator returned. For \<open>A = 2\<close>,
  \<open>E = 1\<close>, \<open>N = 2 ^ 64 + 1\<close> and the cached \<open>RR = 2 ^ 256 mod N = 1\<close> the result is 2 on
  memory that holds zeros and 1 on memory whose limbs hold 1.
\<close>

lemma exp_mod_stale_limb:
  "ttls_mpi_exp_mod mpi_env0 ttls_mpi_init (mpi_of_limb 1 2) (mpi_of_limb 1 1)
       \<lparr>mpi_s = 1, used = 2, mpi_p = [1, 1]\<rparr> (mpi_of_limb 1 1)
     = Some (Ok (\<lparr>mpi_s = 1, used = 1, mpi_p = [2, 0, 0]\<rparr>, mpi_of_limb 1 1))
   \<and> ttls_mpi_exp_mod mpi_env1 ttls_mpi_init (mpi_of_limb 1 2) (mpi_of_limb 1 1)
       \<lparr>mpi_s = 1, used = 2, mpi_p = [1, 1]\<rparr> (mpi_of_limb 1 1)
     = Some (Ok (\<lparr>mpi_s = 1, used = 1, mpi_p = [1, 0, 0]\<rparr>, mpi_of_limb 1 1))"
  by (simp add: mpi_eval Let_def cong: rbind_weak_cong obind_weak_cong let_weak_cong)

section \<open>Binary export and import\<close>

subsection \<open>Values of limb lists\<close>

lemma limbs_val_append:
  "limbs_val (xs @ ys) = limbs_val xs + 2 ^ (64 * length xs) * limbs_val ys"
  by (induction xs) (simp_all add: power_add algebra_simps)

lemma limbs_val_bound: "limbs_val xs < 2 ^ (64 * length xs)"
proof (induction xs)
  case Nil
  show ?case by simp
next
  case (Cons x xs)
  have "unat x < 2 ^ 64"
    using unsigned_less [of x, where ?'a = nat] by simp
  moreover have "limbs_val xs + 1 \<le> 2 ^ (64 * length xs)"
    using Cons.IH by simp
  then have "2 ^ 64 * (limbs_val xs + 1) \<le> (2::nat) ^ 64 * 2 ^ (64 * length xs)"
    by (rule mult_le_mono2)
  ultimately show ?case
    by (simp add: power_add)
qed

lemma limbs_val_replicate_zero: "limbs_val (replicate n 0) = 0"
  by (induction n) simp_all

subsection \<open>The bit length\<close>

lemma nat_bitlen_upper: "n < 2 ^ nat_bitlen n"
proof (induction n rule: nat_bitlen.induct)
  case (1 n)
  show ?case
  proof (cases "n = 0")
    case True
    then show ?thesis by (simp add: nat_bitlen.simps)
  next
    case False
    then have "n div 2 < 2 ^ nat_bitlen (n div 2)"
      using 1 by simp
    then have "n < 2 * 2 ^ nat_bitlen (n div 2)"
      by linarith
    with False show ?thesis
      by (simp add: nat_bitlen.simps [of n])
  qed
qed

lemma nat_bitlen_lower: "n \<noteq> 0 \<Longrightarrow> 2 ^ (nat_bitlen n - 1) \<le> n"
proof (induction n rule: nat_bitlen.induct)
  case (1 n)
  show ?case
  proof (cases "n div 2 = 0")
    case True
    with "1.prems" have "n = 1" by linarith
    then show ?thesis
      by (simp add: nat_bitlen.simps [of "Suc 0"] nat_bitlen.simps [of 0])
  next
    case False
    then have ih: "2 ^ (nat_bitlen (n div 2) - 1) \<le> n div 2"
      using 1 by simp
    have pos: "nat_bitlen (n div 2) > 0"
      using False by (simp add: nat_bitlen.simps [of "n div 2"])
    have "nat_bitlen n - 1 = Suc (nat_bitlen (n div 2) - 1)"
      using "1.prems" pos by (simp add: nat_bitlen.simps [of n])
    then have "(2::nat) ^ (nat_bitlen n - 1) = 2 * 2 ^ (nat_bitlen (n div 2) - 1)"
      by simp
    also have "\<dots> \<le> 2 * (n div 2)"
      using ih by simp
    also have "\<dots> \<le> n"
      by simp
    finally show ?thesis .
  qed
qed

lemma nat_bitlen_unique:
  assumes "2 ^ k \<le> n" and "n < 2 ^ Suc k"
  shows "nat_bitlen n = Suc k"
proof -
  have n0: "n \<noteq> 0"
    using assms(1) by (cases "n = 0") simp_all
  have "(2::nat) ^ k < 2 ^ nat_bitlen n"
    using assms(1) nat_bitlen_upper [of n] by (rule le_less_trans)
  then have a: "k < nat_bitlen n"
    by (simp add: power_strict_increasing_iff)
  have "(2::nat) ^ (nat_bitlen n - 1) < 2 ^ Suc k"
    using nat_bitlen_lower [OF n0] assms(2) by (rule le_less_trans)
  then have "nat_bitlen n - 1 < Suc k"
    by (simp only: power_strict_increasing_iff rel_simps)
  with a show ?thesis by simp
qed

lemma nat_bitlen_zero: "nat_bitlen 0 = 0"
  by (simp add: nat_bitlen.simps)

lemma nat_bitlen_pos: "n \<noteq> 0 \<Longrightarrow> 0 < nat_bitlen n"
  by (simp add: nat_bitlen.simps [of n])

lemma fls64_le: "fls64 x \<le> 64"
proof (cases "x = 0")
  case True
  then show ?thesis by (simp add: fls64_def nat_bitlen_zero)
next
  case False
  then have n0: "unat x \<noteq> 0"
    by (simp add: unat_eq_0)
  have "2 ^ (nat_bitlen (unat x) - 1) \<le> unat x"
    using nat_bitlen_lower [OF n0] .
  also have "unat x < 2 ^ 64"
    using unsigned_less [of x, where ?'a = nat] by simp
  finally have "nat_bitlen (unat x) - 1 < 64"
    by (simp only: power_strict_increasing_iff rel_simps)
  then show ?thesis
    by (simp add: fls64_def)
qed

text \<open>The bit length of a limb list whose last limb is not zero.\<close>

lemma bitlen_snoc:
  assumes "x \<noteq> 0"
  shows "nat_bitlen (limbs_val (xs @ [x])) = 64 * length xs + fls64 x"
proof -
  have n0: "unat x \<noteq> 0"
    using assms by (simp add: unat_eq_0)
  define k where "k = nat_bitlen (unat x) - 1"
  have kk: "nat_bitlen (unat x) = Suc k"
    using nat_bitlen_pos [OF n0] by (simp add: k_def)
  have lo: "2 ^ k \<le> unat x"
    using nat_bitlen_lower [OF n0] by (simp add: k_def)
  have hi: "unat x + 1 \<le> 2 ^ Suc k"
    using nat_bitlen_upper [of "unat x"] kk by simp
  define m where "m = 64 * length xs"
  have v: "limbs_val (xs @ [x]) = limbs_val xs + 2 ^ m * unat x"
    by (simp add: limbs_val_append m_def)
  have b: "limbs_val xs < 2 ^ m"
    using limbs_val_bound [of xs] by (simp add: m_def)
  have "(2::nat) ^ (m + k) = 2 ^ m * 2 ^ k"
    by (simp add: power_add)
  also have "\<dots> \<le> 2 ^ m * unat x"
    using lo by simp
  finally have l: "2 ^ (m + k) \<le> limbs_val (xs @ [x])"
    using v by simp
  have "limbs_val xs + 2 ^ m * unat x < 2 ^ m + 2 ^ m * unat x"
    using b by simp
  also have "\<dots> = 2 ^ m * (unat x + 1)"
    by simp
  also have "\<dots> \<le> 2 ^ m * 2 ^ Suc k"
    using hi by (rule mult_le_mono2)
  also have "\<dots> = 2 ^ Suc (m + k)"
    by (simp add: power_add)
  finally have u: "limbs_val (xs @ [x]) < 2 ^ Suc (m + k)"
    using v by simp
  have "nat_bitlen (limbs_val (xs @ [x])) = Suc (m + k)"
    using l u by (rule nat_bitlen_unique)
  then show ?thesis
    by (simp add: fls64_def kk m_def)
qed

lemma take_snoc_nth: "0 < u \<Longrightarrow> u \<le> length xs \<Longrightarrow> take u xs = take (u - 1) xs @ [xs ! (u - 1)]"
  by (cases u) (simp_all add: take_Suc_conv_app_nth)

lemma bitlen_correct:
  assumes "mpi_wf X"
  shows "ttls_mpi_bitlen X = nat_bitlen (mpi_abs X)"
proof (cases "used X = 0")
  case True
  then show ?thesis
    by (simp add: ttls_mpi_bitlen_def mpi_abs_def nat_bitlen_zero)
next
  case False
  then have u: "0 < used X" "used X \<le> length (mpi_p X)"
    using assms by (simp_all add: mpi_wf_def limbs_def)
  note tk = take_snoc_nth [OF u]
  show ?thesis
  proof (cases "mpi_p X ! (used X - 1) = 0")
    case True
    then have "used X = 1"
      using assms u by (auto simp: mpi_wf_def)
    then have "mpi_abs X = 0"
      using True tk by (simp add: mpi_abs_def)
    then show ?thesis
      using True by (simp add: ttls_mpi_bitlen_def nat_bitlen_zero)
  next
    case nz: False
    have "nat_bitlen (mpi_abs X) = 64 * (used X - 1) + fls64 (mpi_p X ! (used X - 1))"
      using bitlen_snoc [OF nz, of "take (used X - 1) (mpi_p X)"] u tk
      by (simp add: mpi_abs_def)
    then show ?thesis
      using nz False by (simp add: ttls_mpi_bitlen_def BIL_def)
  qed
qed

lemma size_correct: "mpi_wf X \<Longrightarrow> ttls_mpi_size X = byte_length (mpi_abs X)"
  by (simp add: ttls_mpi_size_def byte_length_def bitlen_correct)

subsection \<open>Big endian byte strings\<close>

lemma be_foldl_acc:
  "foldl (\<lambda>acc b. 256 * acc + unat b) a bs = a * 256 ^ length bs + be_bytes_val bs"
proof (induction bs arbitrary: a)
  case Nil
  show ?case by (simp add: be_bytes_val_def)
next
  case (Cons b bs)
  let ?f = "\<lambda>acc (b::byte). 256 * acc + unat b"
  have "foldl ?f a (b # bs) = foldl ?f (256 * a + unat b) bs"
    by simp
  also have "\<dots> = (256 * a + unat b) * 256 ^ length bs + be_bytes_val bs"
    by (rule Cons.IH)
  finally have 1: "foldl ?f a (b # bs) = (256 * a + unat b) * 256 ^ length bs + be_bytes_val bs" .
  have "be_bytes_val (b # bs) = foldl ?f (unat b) bs"
    by (simp add: be_bytes_val_def)
  also have "\<dots> = unat b * 256 ^ length bs + be_bytes_val bs"
    by (rule Cons.IH)
  finally have 2: "be_bytes_val (b # bs) = unat b * 256 ^ length bs + be_bytes_val bs" .
  show ?case
    unfolding 1 2 by (simp add: algebra_simps)
qed

lemma be_bytes_val_append:
  "be_bytes_val (xs @ ys) = be_bytes_val xs * 256 ^ length ys + be_bytes_val ys"
  using be_foldl_acc [of "be_bytes_val xs" ys] by (simp add: be_bytes_val_def)

lemma be_bytes_val_Nil: "be_bytes_val [] = 0"
  by (simp add: be_bytes_val_def)

lemma be_bytes_val_Cons: "be_bytes_val (b # bs) = unat b * 256 ^ length bs + be_bytes_val bs"
  using be_bytes_val_append [of "[b]" bs] by (simp add: be_bytes_val_def)

lemma be_bytes_val_zeros: "be_bytes_val (replicate n 0 @ bs) = be_bytes_val bs"
  by (induction n) (simp_all add: be_bytes_val_Cons)

lemma be_bytes_val_bound: "be_bytes_val bs < 256 ^ length bs"
proof (induction bs rule: rev_induct)
  case Nil
  show ?case by (simp add: be_bytes_val_Nil)
next
  case (snoc b bs)
  have "unat b < 256"
    using unsigned_less [of b, where ?'a = nat] by simp
  moreover have "256 * (be_bytes_val bs + 1) \<le> 256 * 256 ^ length bs"
    using snoc.IH by (intro mult_le_mono2) simp
  ultimately show ?case
    by (simp add: be_bytes_val_append be_bytes_val_Cons be_bytes_val_Nil)
qed

lemma be_rev_digits:
  "be_bytes_val (rev (map f [0..<n])) = (\<Sum>j<n. unat (f j) * 256 ^ j)"
  by (induction n) (simp_all add: be_bytes_val_Nil be_bytes_val_Cons)

lemma digits_sum: "(\<Sum>j<n. (V div 256 ^ j mod 256) * 256 ^ j) = (V::nat) mod 256 ^ n"
proof (induction n)
  case 0
  show ?case by simp
next
  case (Suc n)
  have "V mod (256 ^ n * 256) = 256 ^ n * (V div 256 ^ n mod 256) + V mod 256 ^ n"
    by (rule mod_mult2_eq)
  then show ?case
    using Suc by (simp add: mult.commute)
qed

lemma limb_digit:
  "j div 8 < length xs \<Longrightarrow>
   limbs_val xs div 256 ^ j mod 256 = unat (xs ! (j div 8)) div 256 ^ (j mod 8) mod 256"
proof (induction xs arbitrary: j)
  case Nil
  then show ?case by simp
next
  case (Cons x xs)
  have xb: "unat x < 2 ^ 64"
    using unsigned_less [of x, where ?'a = nat] by simp
  show ?case
  proof (cases "j < 8")
    case True
    then have j: "j div 8 = 0" "j mod 8 = j"
      by simp_all
    have e: "(2::nat) ^ 64 = 256 ^ j * (256 * 256 ^ (7 - j))"
    proof -
      have "(256::nat) ^ j * (256 * 256 ^ (7 - j)) = 256 ^ (j + Suc (7 - j))"
        by (simp only: power_add power_Suc)
      also have "j + Suc (7 - j) = 8"
        using True by simp
      finally show ?thesis by simp
    qed
    have "(unat x + 2 ^ 64 * limbs_val xs) div 256 ^ j
          = unat x div 256 ^ j + 256 * (256 ^ (7 - j) * limbs_val xs)"
      by (simp only: e mult.assoc) simp
    then show ?thesis
      using j by simp
  next
    case False
    then have j: "j div 8 = Suc ((j - 8) div 8)" "j mod 8 = (j - 8) mod 8"
      by (simp_all add: le_div_geq le_mod_geq)
    have e: "(256::nat) ^ j = 2 ^ 64 * 256 ^ (j - 8)"
    proof -
      have "(256::nat) ^ j = 256 ^ (8 + (j - 8))"
        using False by simp
      then show ?thesis
        by (simp only: power_add) simp
    qed
    have "(unat x + 2 ^ 64 * limbs_val xs) div 256 ^ j = limbs_val xs div 256 ^ (j - 8)"
      using xb by (simp only: e div_mult2_eq [symmetric]) (simp add: div_mult2_eq)
    moreover have "(j - 8) div 8 < length xs"
      using Cons.prems j by simp
    ultimately show ?thesis
      using Cons.IH [of "j - 8"] j by simp
  qed
qed

lemma limb_byte_val:
  "unat (limb_byte X j) = unat (mpi_p X ! (j div 8)) div 256 ^ (j mod 8) mod 256"
proof -
  have "unat (limb_byte X j) = take_bit 8 (unat (drop_bit (j mod 8 * 8) (mpi_p X ! (j div 8))))"
    by (simp add: limb_byte_def CIL_def unsigned_ucast_eq)
  also have "unat (drop_bit (j mod 8 * 8) (mpi_p X ! (j div 8)))
             = drop_bit (j mod 8 * 8) (unat (mpi_p X ! (j div 8)))"
    by (rule unat_drop_bit_eq)
  finally show ?thesis
    by (simp add: take_bit_eq_mod drop_bit_eq_div power_mult mult.commute)
qed

subsection \<open>Export\<close>

lemma nat_bitlen_le: "n < 2 ^ k \<Longrightarrow> nat_bitlen n \<le> k"
proof (cases "n = 0")
  case True
  then show ?thesis by (simp add: nat_bitlen_zero)
next
  case False
  assume "n < 2 ^ k"
  with nat_bitlen_lower [OF False] have "(2::nat) ^ (nat_bitlen n - 1) < 2 ^ k"
    by (rule le_less_trans)
  then have "nat_bitlen n - 1 < k"
    by (simp only: power_strict_increasing_iff rel_simps)
  then show ?thesis by simp
qed

lemma byte_length_bound: "v < 256 ^ byte_length v"
proof -
  have "nat_bitlen v \<le> 8 * byte_length v"
    by (simp add: byte_length_def)
  then have "(2::nat) ^ nat_bitlen v \<le> 2 ^ (8 * byte_length v)"
    by (rule power_increasing) simp
  with nat_bitlen_upper [of v] have "v < 2 ^ (8 * byte_length v)"
    by (rule less_le_trans)
  then show ?thesis
    by (simp add: power_mult)
qed

lemma byte_length_le: "v < 256 ^ n \<Longrightarrow> byte_length v \<le> n"
proof -
  assume "v < 256 ^ n"
  then have "v < 2 ^ (8 * n)"
    by (simp add: power_mult)
  then have "nat_bitlen v \<le> 8 * n"
    by (rule nat_bitlen_le)
  then show ?thesis
    by (simp add: byte_length_def)
qed

lemma write_bytes_val:
  assumes "used X \<le> limbs X" and "n \<le> 8 * used X"
  shows "be_bytes_val (rev (map (limb_byte X) [0..<n])) = mpi_abs X mod 256 ^ n"
proof -
  have "(\<Sum>j<n. unat (limb_byte X j) * 256 ^ j)
        = (\<Sum>j<n. (mpi_abs X div 256 ^ j mod 256) * 256 ^ j)"
  proof (rule sum.cong)
    fix j assume "j \<in> {..<n}"
    then have j: "j div 8 < used X"
      using assms(2) by auto
    then have l: "j div 8 < length (take (used X) (mpi_p X))"
      using assms(1) by (simp add: limbs_def)
    have "mpi_abs X div 256 ^ j mod 256
          = unat (take (used X) (mpi_p X) ! (j div 8)) div 256 ^ (j mod 8) mod 256"
      unfolding mpi_abs_def using l by (rule limb_digit)
    also have "\<dots> = unat (limb_byte X j)"
      using j by (simp add: limb_byte_val)
    finally show "unat (limb_byte X j) * 256 ^ j = (mpi_abs X div 256 ^ j mod 256) * 256 ^ j"
      by simp
  qed simp
  then show ?thesis
    by (simp only: be_rev_digits digits_sum)
qed

lemma size_le_used:
  assumes "mpi_wf X"
  shows "ttls_mpi_size X \<le> 8 * used X"
proof -
  have "used X \<le> length (mpi_p X)"
    using assms by (simp add: mpi_wf_def limbs_def)
  then have len: "length (take (used X) (mpi_p X)) = used X"
    by simp
  have "mpi_abs X < 2 ^ (64 * used X)"
    using limbs_val_bound [of "take (used X) (mpi_p X)"] unfolding len mpi_abs_def .
  then have "mpi_abs X < 256 ^ (8 * used X)"
    by (simp add: power_mult)
  then show ?thesis
    using assms by (simp add: size_correct byte_length_le)
qed

lemma write_binary_ok:
  assumes "mpi_wf X" and "byte_length (mpi_abs X) \<le> buflen"
  shows "\<exists>out. ttls_mpi_write_binary X buflen = Ok out \<and> length out = buflen
           \<and> be_bytes_val out = mpi_abs X
           \<and> take (buflen - byte_length (mpi_abs X)) out
               = replicate (buflen - byte_length (mpi_abs X)) 0"
proof -
  define n where "n = ttls_mpi_size X"
  have n: "n = byte_length (mpi_abs X)"
    using assms(1) by (simp add: n_def size_correct)
  have "be_bytes_val (rev (map (limb_byte X) [0..<n])) = mpi_abs X mod 256 ^ n"
    using assms(1) size_le_used [OF assms(1)] by (intro write_bytes_val) (simp_all add: mpi_wf_def n_def)
  also have "\<dots> = mpi_abs X"
    using byte_length_bound [of "mpi_abs X"] by (simp add: n)
  finally have "be_bytes_val (replicate (buflen - n) 0 @ rev (map (limb_byte X) [0..<n])) = mpi_abs X"
    by (simp only: be_bytes_val_zeros)
  then show ?thesis
    using assms(2) by (simp add: ttls_mpi_write_binary_def n_def [symmetric] n [symmetric])
qed

lemma write_binary_fails:
  assumes "mpi_wf X" and "buflen < byte_length (mpi_abs X)"
  shows "ttls_mpi_write_binary X buflen = Err ENOSPC"
  using assms by (simp add: ttls_mpi_write_binary_def size_correct)

subsection \<open>Import\<close>

lemma or_push_bit_nat:
  assumes "a < 2 ^ j"
  shows "(a OR push_bit j b :: nat) = a + 2 ^ j * b"
proof -
  have a: "take_bit j a = a"
    using assms by (rule take_bit_nat_eq_self)
  have "a + push_bit j b = a OR push_bit j b"
  proof (rule disjunctive_add)
    fix n
    show "\<not> bit a n \<or> \<not> bit (push_bit j b) n"
      using bit_take_bit_iff [of j a n] a by (auto simp: bit_push_bit_iff)
  qed
  then show ?thesis
    by (simp add: push_bit_eq_mult mult.commute)
qed

lemma unat_byte_less: "unat (b::byte) < 256"
  using unsigned_less [of b, where ?'a = nat] by simp

lemma unat_ucast_byte: "unat (ucast (b::byte) :: limb) = unat b"
proof -
  have "unat b < 2 ^ 64"
    using unat_byte_less [of b] by simp
  then show ?thesis
    by (simp add: unsigned_ucast_eq take_bit_nat_eq_self)
qed

lemma unat_or_shifted_byte:
  assumes "unat (acc::limb) < 2 ^ j" and "j + 8 \<le> 64"
  shows "unat (acc OR push_bit j (ucast (b::byte))) = unat acc + 2 ^ j * unat b"
proof -
  have "2 ^ j * unat b < (2::nat) ^ j * 2 ^ 8"
    using unat_byte_less [of b] by simp
  also have "\<dots> = 2 ^ (j + 8)"
    by (simp add: power_add)
  also have "\<dots> \<le> 2 ^ 64"
    using assms(2) by (rule power_increasing) simp
  finally have "push_bit j (unat b) < 2 ^ 64"
    by (simp add: push_bit_eq_mult mult.commute)
  then have "unat (push_bit j (ucast b :: limb)) = push_bit j (unat b)"
    by (simp add: unsigned_push_bit_eq unat_ucast_byte take_bit_nat_eq_self)
  then have "unat (acc OR push_bit j (ucast b)) = unat acc OR push_bit j (unat b)"
    by (simp add: unsigned_or_eq)
  then show ?thesis
    using assms(1) by (simp add: or_push_bit_nat)
qed

lemma unat_shift_or_byte:
  assumes "unat (acc::limb) < 2 ^ 56"
  shows "unat (push_bit 8 acc OR ucast (b::byte)) = 256 * unat acc + unat b"
proof -
  have "push_bit 8 (unat acc) < 2 ^ 64"
    using assms by (simp add: push_bit_eq_mult)
  then have "unat (push_bit 8 acc) = push_bit 8 (unat acc)"
    by (simp add: unsigned_push_bit_eq take_bit_nat_eq_self)
  then have "unat (push_bit 8 acc OR ucast b) = unat b OR push_bit 8 (unat acc)"
    by (simp add: unsigned_or_eq unat_ucast_byte or.commute)
  also have "\<dots> = unat b + 2 ^ 8 * unat acc"
    using unat_byte_less [of b] by (intro or_push_bit_nat) simp
  finally show ?thesis
    by simp
qed

lemma be_limb_acc:
  "unat acc < 256 ^ k \<Longrightarrow> k + length bs \<le> 8 \<Longrightarrow>
   unat (foldl (\<lambda>acc b. push_bit 8 acc OR ucast b) (acc::limb) bs)
     = unat acc * 256 ^ length bs + be_bytes_val bs"
proof (induction bs arbitrary: acc k)
  case Nil
  show ?case by (simp add: be_bytes_val_Nil)
next
  case (Cons b bs)
  have k: "k \<le> 7"
    using Cons.prems(2) by simp
  have "(256::nat) ^ k \<le> 256 ^ 7"
    using k by (intro power_increasing) simp_all
  then have "unat acc < 2 ^ 56"
    using Cons.prems(1) by simp
  then have st: "unat (push_bit 8 acc OR ucast b) = 256 * unat acc + unat b"
    by (rule unat_shift_or_byte)
  have "256 * unat acc + unat b < 256 * (unat acc + 1)"
    using unat_byte_less [of b] by simp
  also have "\<dots> \<le> 256 * 256 ^ k"
    using Cons.prems(1) by (intro mult_le_mono2) simp
  finally have "unat (push_bit 8 acc OR ucast b) < 256 ^ Suc k"
    using st by simp
  moreover have "Suc k + length bs \<le> 8"
    using Cons.prems(2) by simp
  ultimately have "unat (foldl (\<lambda>acc b. push_bit 8 acc OR ucast b) (push_bit 8 acc OR ucast b) bs)
      = unat (push_bit 8 acc OR ucast b) * 256 ^ length bs + be_bytes_val bs"
    by (rule Cons.IH)
  then show ?case
    by (simp add: st be_bytes_val_Cons algebra_simps)
qed

lemma be_limb_val: "length bs \<le> 8 \<Longrightarrow> unat (be_limb bs) = be_bytes_val bs"
  using be_limb_acc [of 0 0 bs] by (simp add: be_limb_def)

lemma read_full_limbs_length: "length (read_full_limbs buf i) = i div 8"
proof (induction buf i rule: read_full_limbs.induct)
  case (1 buf i)
  show ?case
  proof (cases "i \<ge> CIL")
    case True
    then have "length (read_full_limbs buf i) = Suc ((i - 8) div 8)"
      using 1 by (simp add: read_full_limbs.simps [of buf i] CIL_def)
    also have "\<dots> = i div 8"
      using True by (simp add: CIL_def le_div_geq)
    finally show ?thesis .
  next
    case False
    then show ?thesis
      by (simp add: read_full_limbs.simps [of buf i] CIL_def)
  qed
qed

lemma read_full_limbs_val:
  "i \<le> length buf \<Longrightarrow>
   limbs_val (read_full_limbs buf i) = be_bytes_val (drop (i mod 8) (take i buf))"
proof (induction buf i rule: read_full_limbs.induct)
  case (1 buf i)
  show ?case
  proof (cases "i \<ge> CIL")
    case True
    then have i8: "8 \<le> i"
      by (simp add: CIL_def)
    define r where "r = i mod 8"
    have r1: "(i - 8) mod 8 = r"
      using i8 by (simp add: r_def le_mod_geq)
    have "(i - 8) mod 8 \<le> i - 8"
      by (rule mod_less_eq_dividend)
    then have r2: "r \<le> i - 8"
      by (simp only: r1)
    note r = r1 r2
    define chunk where "chunk = take 8 (drop (i - 8) buf)"
    have lc: "length chunk = 8"
      using i8 "1.prems" by (simp add: chunk_def)
    have "take i buf = take ((i - 8) + 8) buf"
      using i8 by simp
    also have "\<dots> = take (i - 8) buf @ chunk"
      by (simp only: take_add chunk_def)
    finally have "drop r (take i buf) = drop r (take (i - 8) buf) @ chunk"
      using r(2) "1.prems" by simp
    then have "be_bytes_val (drop r (take i buf))
               = be_bytes_val (drop r (take (i - 8) buf)) * 256 ^ 8 + be_bytes_val chunk"
      by (simp add: be_bytes_val_append lc)
    moreover have "limbs_val (read_full_limbs buf (i - 8))
                   = be_bytes_val (drop r (take (i - 8) buf))"
      using "1.IH" True "1.prems" r(1) by (simp add: CIL_def)
    moreover have "unat (be_limb chunk) = be_bytes_val chunk"
      using lc by (intro be_limb_val) simp
    moreover have "read_full_limbs buf i = be_limb chunk # read_full_limbs buf (i - 8)"
      using True by (simp add: read_full_limbs.simps [of buf i] CIL_def chunk_def)
    ultimately show ?thesis
      by (simp add: r_def)
  next
    case False
    then show ?thesis
      by (simp add: read_full_limbs.simps [of buf i] CIL_def be_bytes_val_Nil)
  qed
qed

lemma read_last_limb_val:
  "unat acc < 2 ^ j \<Longrightarrow> j + 8 * i \<le> 64 \<Longrightarrow> i \<le> length buf \<Longrightarrow>
   unat (read_last_limb buf i j acc) = unat acc + 2 ^ j * be_bytes_val (take i buf)"
proof (induction buf i j acc rule: read_last_limb.induct)
  case (1 buf i j acc)
  show ?case
  proof (cases "i > 0")
    case True
    define b where "b = buf ! (i - 1)"
    define acc1 where "acc1 = acc OR push_bit j (ucast b)"
    have j8: "j + 8 \<le> 64"
      using True "1.prems"(2) by simp
    have a1: "unat acc1 = unat acc + 2 ^ j * unat b"
      unfolding acc1_def using "1.prems"(1) j8 by (rule unat_or_shifted_byte)
    have "unat acc + 2 ^ j * unat b < 2 ^ j + 2 ^ j * unat b"
      using "1.prems"(1) by simp
    also have "\<dots> = 2 ^ j * (unat b + 1)"
      by simp
    also have "\<dots> \<le> 2 ^ j * 2 ^ 8"
      using unat_byte_less [of b] by (intro mult_le_mono2) simp
    finally have b1: "unat acc1 < 2 ^ (j + 8)"
      using a1 by (simp add: power_add)
    have "unat (read_last_limb buf (i - 1) (j + 8) acc1)
          = unat acc1 + 2 ^ (j + 8) * be_bytes_val (take (i - 1) buf)"
      using "1.IH" [OF True] b1 "1.prems"(2,3) True
      by (simp add: acc1_def b_def)
    moreover have "take i buf = take (i - 1) buf @ [b]"
      using True "1.prems"(3) by (simp add: b_def take_snoc_nth)
    moreover have "read_last_limb buf i j acc = read_last_limb buf (i - 1) (j + 8) acc1"
      using True by (simp add: read_last_limb.simps [of buf i] acc1_def b_def)
    ultimately show ?thesis
      by (simp add: a1 be_bytes_val_append be_bytes_val_Cons be_bytes_val_Nil power_add
          algebra_simps)
  next
    case False
    then show ?thesis
      by (simp add: read_last_limb.simps [of buf 0] be_bytes_val_Nil)
  qed
qed



lemma fixup_loop_stop: "\<not> (1 < u \<and> xs ! (u - 1) = 0) \<Longrightarrow> fixup_loop xs u = u"
  by (subst fixup_loop.simps) auto

lemma fixup_loop_step:
  "1 < u \<and> xs ! (u - 1) = 0 \<Longrightarrow> fixup_loop xs u = fixup_loop xs (u - 1)"
  by (subst fixup_loop.simps) simp

lemma fixup_loop_le: "fixup_loop xs u \<le> u"
proof (induction xs u rule: fixup_loop.induct)
  case (1 xs u)
  show ?case
  proof (cases "1 < u \<and> xs ! (u - 1) = 0")
    case True
    have "fixup_loop xs (u - 1) \<le> u - 1"
      using True by (rule 1)
    then show ?thesis
      unfolding fixup_loop_step [OF True] by simp
  next
    case False
    show ?thesis
      unfolding fixup_loop_stop [OF False] by simp
  qed
qed

lemma fixup_loop_pos: "0 < u \<Longrightarrow> 0 < fixup_loop xs u"
proof (induction xs u rule: fixup_loop.induct)
  case (1 xs u)
  show ?case
  proof (cases "1 < u \<and> xs ! (u - 1) = 0")
    case True
    have "0 < fixup_loop xs (u - 1)"
      using True by (intro "1.IH") simp_all
    then show ?thesis
      unfolding fixup_loop_step [OF True] .
  next
    case False
    show ?thesis
      unfolding fixup_loop_stop [OF False] by (rule "1.prems")
  qed
qed

lemma fixup_loop_top: "1 < fixup_loop xs u \<Longrightarrow> xs ! (fixup_loop xs u - 1) \<noteq> 0"
proof (induction xs u rule: fixup_loop.induct)
  case (1 xs u)
  show ?case
  proof (cases "1 < u \<and> xs ! (u - 1) = 0")
    case True
    show ?thesis
      using "1.IH" [OF True] "1.prems" unfolding fixup_loop_step [OF True] by simp
  next
    case False
    show ?thesis
      using False "1.prems" unfolding fixup_loop_stop [OF False] by simp
  qed
qed

lemma fixup_loop_val:
  "u \<le> length xs \<Longrightarrow> limbs_val (take (fixup_loop xs u) xs) = limbs_val (take u xs)"
proof (induction xs u rule: fixup_loop.induct)
  case (1 xs u)
  show ?case
  proof (cases "1 < u \<and> xs ! (u - 1) = 0")
    case True
    have "take u xs = take (u - 1) xs @ [xs ! (u - 1)]"
      using True "1.prems" by (intro take_snoc_nth) simp_all
    then have "limbs_val (take u xs) = limbs_val (take (u - 1) xs)"
      using True by (simp add: limbs_val_append)
    moreover have "limbs_val (take (fixup_loop xs (u - 1)) xs) = limbs_val (take (u - 1) xs)"
      using "1.IH" [OF True] "1.prems" by simp
    ultimately show ?thesis
      unfolding fixup_loop_step [OF True] by simp
  next
    case False
    show ?thesis
      unfolding fixup_loop_stop [OF False] ..
  qed
qed

lemma read_limbs_length: "length (read_limbs buf) = CHARS_TO_LIMBS (length buf)"
  unfolding read_limbs_def CHARS_TO_LIMBS_def CIL_def
  by (simp add: read_full_limbs_length) presburger

lemma read_limbs_val: "limbs_val (read_limbs buf) = be_bytes_val buf"
proof -
  define r where "r = length buf mod 8"
  define q where "q = length buf div 8"
  have full: "limbs_val (read_full_limbs buf (length buf)) = be_bytes_val (drop r buf)"
    using read_full_limbs_val [of "length buf" buf] by (simp add: r_def)
  have ld: "length (drop r buf) = 8 * q"
    unfolding r_def q_def by (simp add: minus_mod_eq_mult_div)
  have split: "be_bytes_val buf = be_bytes_val (take r buf) * 256 ^ (8 * q) + be_bytes_val (drop r buf)"
    using be_bytes_val_append [of "take r buf" "drop r buf"] ld by simp
  show ?thesis
  proof (cases "r = 0")
    case True
    then show ?thesis
      using full by (simp add: read_limbs_def CIL_def r_def)
  next
    case False
    have r8: "r < 8"
      by (simp add: r_def)
    have "unat (read_last_limb buf r 0 0) = unat (0::limb) + 2 ^ 0 * be_bytes_val (take r buf)"
      by (rule read_last_limb_val) (use r8 in \<open>simp_all add: r_def\<close>)
    then have last: "unat (read_last_limb buf r 0 0) = be_bytes_val (take r buf)"
      by simp
    have "limbs_val (read_limbs buf)
          = limbs_val (read_full_limbs buf (length buf)) + 2 ^ (64 * q) * be_bytes_val (take r buf)"
      using False
      by (simp add: read_limbs_def CIL_def r_def [symmetric] limbs_val_append
          read_full_limbs_length q_def [symmetric] last)
    moreover have "(2::nat) ^ (64 * q) = 256 ^ (8 * q)"
    proof -
      have "(256::nat) ^ (8 * q) = (2 ^ 8) ^ (8 * q)"
        by simp
      also have "\<dots> = 2 ^ (8 * (8 * q))"
        by (simp only: power_mult)
      finally show ?thesis by simp
    qed
    ultimately show ?thesis
      using full split by (simp add: mult.commute)
  qed
qed


lemma fixup_loop_append: "u \<le> length xs \<Longrightarrow> fixup_loop (xs @ ys) u = fixup_loop xs u"
proof (induction xs u rule: fixup_loop.induct)
  case (1 xs u)
  have nth: "1 < u \<Longrightarrow> (xs @ ys) ! (u - 1) = xs ! (u - 1)"
    using "1.prems" by (auto simp: nth_append)
  show ?case
  proof (cases "1 < u \<and> xs ! (u - 1) = 0")
    case True
    then have T2: "1 < u \<and> (xs @ ys) ! (u - 1) = 0"
      using nth by simp
    have "fixup_loop (xs @ ys) (u - 1) = fixup_loop xs (u - 1)"
      using "1.IH" [OF True] "1.prems" by simp
    then show ?thesis
      unfolding fixup_loop_step [OF True] fixup_loop_step [OF T2] .
  next
    case False
    then have F2: "\<not> (1 < u \<and> (xs @ ys) ! (u - 1) = 0)"
      using nth by auto
    show ?thesis
      unfolding fixup_loop_stop [OF False] fixup_loop_stop [OF F2] ..
  qed
qed

lemma read_binary_unfold:
  "ttls_mpi_read_binary e D buf =
     Ok (mpi_fixup_used
           (D\<lparr>mpi_p := read_limbs buf @
                         drop (length (read_limbs buf))
                           (if limbs D < CHARS_TO_LIMBS (length buf)
                            then kmalloc e (CHARS_TO_LIMBS (length buf)) else mpi_p D),
               mpi_s := 1\<rparr>)
           (CHARS_TO_LIMBS (length buf)))"
  by (simp add: ttls_mpi_read_binary_def Let_def read_limbs_def)

lemma read_binary_ok:
  "\<exists>Y. ttls_mpi_read_binary e D buf = Ok Y \<and> mpi_s Y = 1 \<and> mpi_abs Y = be_bytes_val buf
       \<and> mpi_wf Y \<and> (buf \<noteq> [] \<longrightarrow> 0 < used Y)"
proof -
  define n where "n = CHARS_TO_LIMBS (length buf)"
  define new where "new = read_limbs buf"
  define p0 where "p0 = (if limbs D < n then kmalloc e n else mpi_p D)"
  define xs where "xs = new @ drop (length new) p0"
  define u where "u = fixup_loop xs n"
  define Y where "Y = D\<lparr>mpi_p := xs, mpi_s := 1, used := u\<rparr>"
  have ln: "length new = n"
    by (simp add: new_def n_def read_limbs_length)
  have lx: "n \<le> length xs"
    by (simp add: xs_def ln)
  have "ttls_mpi_read_binary e D buf = Ok (mpi_fixup_used (D\<lparr>mpi_p := xs, mpi_s := 1\<rparr>) n)"
    unfolding read_binary_unfold xs_def new_def p0_def n_def ..
  also have "mpi_fixup_used (D\<lparr>mpi_p := xs, mpi_s := 1\<rparr>) n = Y"
    using lx by (simp add: mpi_fixup_used_def limbs_def Y_def u_def)
  finally have rd: "ttls_mpi_read_binary e D buf = Ok Y" .
  have un: "u = fixup_loop new n"
    unfolding u_def xs_def by (rule fixup_loop_append) (simp add: ln)
  have ule: "u \<le> n"
    unfolding u_def by (rule fixup_loop_le)
  have "take u xs = take u new"
    using ule by (simp add: xs_def ln)
  then have "mpi_abs Y = limbs_val (take (fixup_loop new n) new)"
    by (simp add: mpi_abs_def Y_def un)
  also have "\<dots> = limbs_val (take n new)"
    by (rule fixup_loop_val) (simp add: ln)
  also have "\<dots> = be_bytes_val buf"
    by (simp add: ln [symmetric] new_def read_limbs_val)
  finally have v: "mpi_abs Y = be_bytes_val buf" .
  have wf: "mpi_wf Y"
    using ule lx fixup_loop_top [of xs n] by (simp add: mpi_wf_def Y_def limbs_def u_def)
  have "buf \<noteq> [] \<longrightarrow> 0 < used Y"
  proof
    assume "buf \<noteq> []"
    then have "0 < n"
      by (cases buf) (simp_all add: n_def CHARS_TO_LIMBS_def CIL_def)
    then show "0 < used Y"
      by (simp add: Y_def u_def fixup_loop_pos)
  qed
  with rd v wf show ?thesis
    by (intro exI [of _ Y]) (simp add: Y_def)
qed

subsection \<open>Numbers with the same value\<close>

lemma limbs_val_inj: "length xs = length ys \<Longrightarrow> limbs_val xs = limbs_val ys \<Longrightarrow> xs = ys"
proof (induction xs ys rule: list_induct2)
  case Nil
  show ?case by simp
next
  case (Cons x xs y ys)
  have xb: "unat x < 2 ^ 64" and yb: "unat y < 2 ^ 64"
    using unsigned_less [of x, where ?'a = nat] unsigned_less [of y, where ?'a = nat] by simp_all
  have eq: "unat x + 2 ^ 64 * limbs_val xs = unat y + 2 ^ 64 * limbs_val ys"
    using Cons.prems by simp
  have mx: "(unat x + 2 ^ 64 * limbs_val xs) mod 2 ^ 64 = unat x"
    using xb by simp
  have my: "(unat y + 2 ^ 64 * limbs_val ys) mod 2 ^ 64 = unat y"
    using yb by simp
  have "unat x = (unat x + 2 ^ 64 * limbs_val xs) mod 2 ^ 64"
    by (simp only: mx)
  also have "\<dots> = (unat y + 2 ^ 64 * limbs_val ys) mod 2 ^ 64"
    by (simp only: eq)
  also have "\<dots> = unat y"
    by (simp only: my)
  finally have h: "unat x = unat y" .
  then have "limbs_val xs = limbs_val ys"
    using eq by simp
  then have "xs = ys"
    by (rule Cons.IH)
  moreover have "x = y"
    using h by (simp add: word_unat_eq_iff)
  ultimately show ?case by simp
qed

lemma fls64_pos: "x \<noteq> 0 \<Longrightarrow> 0 < fls64 x"
  by (simp add: fls64_def nat_bitlen_pos unat_eq_0)

lemma wf_used_unique:
  assumes "mpi_wf X" "mpi_wf Y" "mpi_abs X = mpi_abs Y" "0 < used X" "0 < used Y"
  shows "used X = used Y"
proof -
  have b: "ttls_mpi_bitlen X = ttls_mpi_bitlen Y"
    using assms(1-3) by (simp add: bitlen_correct)
  show ?thesis
  proof (cases "mpi_p X ! (used X - 1) = 0")
    case True
    then have x1: "used X = 1"
      using assms(1,4) by (auto simp: mpi_wf_def)
    have "ttls_mpi_bitlen Y = 0"
      using b True by (simp add: ttls_mpi_bitlen_def)
    then have "mpi_p Y ! (used Y - 1) = 0"
      using assms(5) fls64_pos [of "mpi_p Y ! (used Y - 1)"]
      by (auto simp: ttls_mpi_bitlen_def split: if_splits)
    then have "used Y = 1"
      using assms(2,5) by (auto simp: mpi_wf_def)
    with x1 show ?thesis by simp
  next
    case False
    then have bx: "ttls_mpi_bitlen X = (used X - 1) * 64 + fls64 (mpi_p X ! (used X - 1))"
      using assms(4) by (simp add: ttls_mpi_bitlen_def BIL_def)
    have fx: "0 < fls64 (mpi_p X ! (used X - 1))" "fls64 (mpi_p X ! (used X - 1)) \<le> 64"
      using False by (simp_all add: fls64_pos fls64_le)
    have "mpi_p Y ! (used Y - 1) \<noteq> 0"
    proof
      assume "mpi_p Y ! (used Y - 1) = 0"
      then have "ttls_mpi_bitlen Y = 0"
        by (simp add: ttls_mpi_bitlen_def)
      then show False
        using b bx fx by simp
    qed
    then have "ttls_mpi_bitlen Y = (used Y - 1) * 64 + fls64 (mpi_p Y ! (used Y - 1))"
      and fy: "0 < fls64 (mpi_p Y ! (used Y - 1))" "fls64 (mpi_p Y ! (used Y - 1)) \<le> 64"
      using assms(5) by (simp_all add: ttls_mpi_bitlen_def BIL_def fls64_pos fls64_le)
    then have "(used X - 1) * 64 + fls64 (mpi_p X ! (used X - 1))
             = (used Y - 1) * 64 + fls64 (mpi_p Y ! (used Y - 1))"
      using b bx by simp
    then have "used X - 1 = used Y - 1"
      using fx fy by arith
    then show ?thesis
      using assms(4,5) by simp
  qed
qed

lemma wf_limbs_unique:
  assumes "mpi_wf X" "mpi_wf Y" "mpi_abs X = mpi_abs Y" "0 < used X" "0 < used Y"
  shows "used Y = used X \<and> take (used Y) (mpi_p Y) = take (used X) (mpi_p X)"
proof -
  have u: "used X = used Y"
    using assms by (rule wf_used_unique)
  have "length (take (used Y) (mpi_p Y)) = length (take (used X) (mpi_p X))"
    using assms(1,2) u by (simp add: mpi_wf_def limbs_def)
  then have "take (used Y) (mpi_p Y) = take (used X) (mpi_p X)"
    by (rule limbs_val_inj) (use assms(3) in \<open>simp add: mpi_abs_def\<close>)
  with u show ?thesis by simp
qed

text \<open>
  Claim C9. For a well-formed, non-negative \<open>X\<close>, \<open>ttls_mpi_write_binary\<close> fails, with
  \<open>-ENOSPC\<close>, exactly when the buffer is shorter than the length in bytes of the value of
  \<open>X\<close>. When it succeeds the buffer holds the value most significant byte first, with
  zeros in front, and \<open>ttls_mpi_read_binary\<close> of the buffer, into any destination, gives a
  well-formed number with the sign and the value of \<open>X\<close>, and with the same limbs in use
  when the buffer is not empty.
\<close>

theorem binary_roundtrip:
  assumes "mpi_wf X" and "mpi_s X = 1"
  shows "(ttls_mpi_write_binary X buflen = Err ENOSPC) = (buflen < byte_length (mpi_abs X)) \<and>
         (byte_length (mpi_abs X) \<le> buflen \<longrightarrow>
            (\<exists>out Y. ttls_mpi_write_binary X buflen = Ok out \<and> length out = buflen \<and>
               be_bytes_val out = mpi_abs X \<and>
               take (buflen - byte_length (mpi_abs X)) out
                 = replicate (buflen - byte_length (mpi_abs X)) 0 \<and>
               ttls_mpi_read_binary e D out = Ok Y \<and> mpi_wf Y \<and> mpi_s Y = mpi_s X \<and>
               mpi_val Y = mpi_val X \<and>
               (0 < buflen \<and> 0 < used X \<longrightarrow>
                  used Y = used X \<and> take (used Y) (mpi_p Y) = take (used X) (mpi_p X))))"
proof (cases "buflen < byte_length (mpi_abs X)")
  case True
  then show ?thesis
    using write_binary_fails [OF assms(1) True] by simp
next
  case False
  then have le: "byte_length (mpi_abs X) \<le> buflen"
    by simp
  obtain out where out: "ttls_mpi_write_binary X buflen = Ok out" "length out = buflen"
      "be_bytes_val out = mpi_abs X"
      "take (buflen - byte_length (mpi_abs X)) out = replicate (buflen - byte_length (mpi_abs X)) 0"
    using write_binary_ok [OF assms(1) le] by blast
  obtain Y where Y: "ttls_mpi_read_binary e D out = Ok Y" "mpi_s Y = 1"
      "mpi_abs Y = be_bytes_val out" "mpi_wf Y" "out \<noteq> [] \<longrightarrow> 0 < used Y"
    using read_binary_ok [of e D out] by blast
  have abs: "mpi_abs X = mpi_abs Y"
    using out(3) Y(3) by simp
  have val: "mpi_val Y = mpi_val X"
    using abs Y(2) assms(2) by (simp add: mpi_val_def)
  have same: "0 < buflen \<and> 0 < used X \<longrightarrow>
                used Y = used X \<and> take (used Y) (mpi_p Y) = take (used X) (mpi_p X)"
  proof
    assume a: "0 < buflen \<and> 0 < used X"
    then have "out \<noteq> []"
      using out(2) by auto
    then have "0 < used Y"
      using Y(5) by simp
    with a show "used Y = used X \<and> take (used Y) (mpi_p Y) = take (used X) (mpi_p X)"
      using wf_limbs_unique [OF assms(1) Y(4) abs] by blast
  qed
  have "ttls_mpi_write_binary X buflen \<noteq> Err ENOSPC"
    using out(1) by simp
  then show ?thesis
    using False le out Y(1,2,4) val same assms(2) by auto
qed

theorem binary_roundtrip_witness:
  "mpi_wf mpi_ten_bytes \<and> mpi_s mpi_ten_bytes = 1 \<and> byte_length (mpi_abs mpi_ten_bytes) = 10 \<and>
   ttls_mpi_write_binary mpi_ten_bytes 9 = Err ENOSPC \<and>
   (\<exists>out Y. ttls_mpi_write_binary mpi_ten_bytes 12 = Ok out \<and> length out = 12 \<and>
      be_bytes_val out = mpi_abs mpi_ten_bytes \<and> take 2 out = replicate 2 0 \<and>
      ttls_mpi_read_binary mpi_env1 ttls_mpi_init out = Ok Y \<and> mpi_wf Y \<and> mpi_s Y = 1 \<and>
      mpi_val Y = mpi_val mpi_ten_bytes \<and> used Y = 2 \<and>
      take (used Y) (mpi_p Y) = [0x0102030405060708, 0x0A0B])"
proof -
  have wf: "mpi_wf mpi_ten_bytes"
    by (simp add: mpi_wf_def mpi_ten_bytes_def limbs_def)
  have s: "mpi_s mpi_ten_bytes = 1"
    by (simp add: mpi_ten_bytes_def)
  have bl: "byte_length (mpi_abs mpi_ten_bytes) = 10"
    by (simp add: byte_length_def mpi_abs_def mpi_ten_bytes_def nat_bitlen.simps)
  show ?thesis
    using binary_roundtrip [OF wf s, of 9 mpi_env1 ttls_mpi_init]
      binary_roundtrip [OF wf s, of 12 mpi_env1 ttls_mpi_init] wf s bl
    by (simp add: mpi_ten_bytes_def)
qed
end
